theory Spec2Isabelle
  imports Main "HOL-Library.Sublist"
begin

chapter \<open>The model\<close>

section \<open>Heading nodes\<close>

text \<open>
  The interface \<open>HeadingNode\<close> of \<open>document-outline.tsx\<close>: identifier, display text,
  nesting level and the ordered list of child nodes. The selectors of the identifier and of
  the text carry the suffix \<open>_n\<close> (\<open>id\<close> is the identity function of HOL, \<open>text\<close> is a
  command of Isabelle). Strings are lists of characters; levels are integers.
\<close>

datatype HeadingNode =
  HeadingNode (id_n: string) (text_n: string) (level: int) (children: "HeadingNode list")

section \<open>Flattening\<close>

text \<open>
  \<open>flattenTree\<close> pushes every node onto the array \<open>result\<close> before it walks the node's
  children. \<open>walk\<close> threads that array: it takes the array as it is when the call starts and
  returns it as it is when the call ends.
\<close>

fun walk :: "HeadingNode list \<Rightarrow> HeadingNode list \<Rightarrow> HeadingNode list" where
  "walk [] result = result"
| "walk (HeadingNode i t l cs # list) result =
     walk list (walk cs (result @ [HeadingNode i t l cs]))"

definition flattenTree :: "HeadingNode list \<Rightarrow> HeadingNode list" where
  "flattenTree nodes = walk nodes []"

section \<open>Filtering\<close>

text \<open>
  Strings are modelled as lists of 8-bit characters, read as the code units below 256 of
  a JavaScript string. On these \<open>toLowerCase\<close> works character by character: it maps the
  letters \<open>A\<close> to \<open>Z\<close> and the capital letters of the range 192 to 222 (all of that range but
  the multiplication sign 215) to the letter 32 places further, and leaves every other
  character as it is. \<open>includes_str\<close> (the method \<open>includes\<close>; the name is a keyword of
  Isabelle) is the substring test: the search string occurs at some position of the string.
\<close>

definition lower_char :: "char \<Rightarrow> char" where
  "lower_char c =
     (let n = (of_char c :: nat)
      in if (65 \<le> n \<and> n \<le> 90) \<or> (192 \<le> n \<and> n \<le> 222 \<and> n \<noteq> 215)
         then char_of (n + 32) else c)"

definition toLowerCase :: "string \<Rightarrow> string" where
  "toLowerCase s = map lower_char s"

fun includes_str :: "string \<Rightarrow> string \<Rightarrow> bool" where
  "includes_str [] q = (q = [])"
| "includes_str (c # s) q = (prefix q (c # s) \<or> includes_str s q)"

text \<open>
  The two local functions of \<open>filterTree\<close>, with the lower-cased query \<open>q\<close> they close over
  as their first argument. \<open>matches\<close> returns at once when the node's own text contains \<open>q\<close>
  and asks the children otherwise (\<open>some\<close>); \<open>prune\<close> copies each matching node, in the order
  of the list, with its children pruned.
\<close>

fun matches :: "string \<Rightarrow> HeadingNode \<Rightarrow> bool" where
  "matches q (HeadingNode i t l cs) =
     (if includes_str (toLowerCase t) q then True else list_ex (matches q) cs)"

fun prune :: "string \<Rightarrow> HeadingNode list \<Rightarrow> HeadingNode list" where
  "prune q [] = []"
| "prune q (HeadingNode i t l cs # list) =
     (if matches q (HeadingNode i t l cs)
      then HeadingNode i t l (prune q cs) # prune q list
      else prune q list)"

definition filterTree :: "HeadingNode list \<Rightarrow> string \<Rightarrow> HeadingNode list" where
  "filterTree nodes query = (let q = toLowerCase query in prune q nodes)"

section \<open>Building the tree\<close>

text \<open>
  The entries of the flat list that \<open>buildTree\<close> receives: objects with the fields \<open>id\<close>,
  \<open>text\<close> and \<open>level\<close>.
\<close>

record flat_item =
  id_f :: string
  text_f :: string
  level_f :: int

text \<open>
  \<open>buildTree\<close> creates one \<open>HeadingNode\<close> object for each entry and then changes objects it
  created earlier: \<open>stack[stack.length - 1].node.children.push(node)\<close> appends to the children
  of an object that \<open>root\<close>, or the children of another object, already refers to. The model
  therefore keeps the objects in a store. An address is an index of the store, a new object
  gets the next free index, and the \<open>children\<close> of an object, \<open>root\<close> and the \<open>node\<close> fields of
  the stack hold addresses.
\<close>

record node_obj =
  obj_id :: string
  obj_text :: string
  obj_level :: int
  obj_children :: "nat list"

record build_state =
  heap :: "node_obj list"
  root :: "nat list"
  stack :: "(nat \<times> int) list"

text \<open>
  The arrays keep the orientation of the source: the top of the stack is its last element,
  \<open>pop\<close> removes the last element and \<open>push\<close> appends. An entry of the stack is the pair of
  its fields \<open>node\<close> and \<open>level\<close>.
\<close>

function pop_loop :: "(nat \<times> int) list \<Rightarrow> int \<Rightarrow> (nat \<times> int) list" where
  "pop_loop st l =
     (if st \<noteq> [] \<and> snd (last st) \<ge> l then pop_loop (butlast st) l else st)"
  by pat_completeness auto
termination
  by (relation "measure (\<lambda>(st, l). length st)") auto

definition push_child :: "node_obj \<Rightarrow> nat \<Rightarrow> node_obj" where
  "push_child obj node = obj\<lparr>obj_children := obj_children obj @ [node]\<rparr>"

text \<open>
  One iteration of the loop over \<open>flat\<close>: the new object is stored at the next free address
  \<open>node\<close>, the stack is popped while its top is at the level of the entry or deeper, the
  new object is pushed onto \<open>root\<close> or onto the children of the object on top of the stack,
  and its address and level are pushed onto the stack.
\<close>

definition new_obj :: "flat_item \<Rightarrow> node_obj" where
  "new_obj item = \<lparr>obj_id = id_f item, obj_text = text_f item,
                    obj_level = level_f item, obj_children = []\<rparr>"

definition build_step :: "build_state \<Rightarrow> flat_item \<Rightarrow> build_state" where
  "build_step s item =
     (let node = length (heap s);
          h = heap s @ [new_obj item];
          st = pop_loop (stack s) (level_f item)
      in if st = []
         then \<lparr>heap = h, root = root s @ [node], stack = st @ [(node, level_f item)]\<rparr>
         else \<lparr>heap = h[fst (last st) := push_child (h ! fst (last st)) node],
               root = root s, stack = st @ [(node, level_f item)]\<rparr>)"

definition build_loop :: "flat_item list \<Rightarrow> build_state" where
  "build_loop flat = foldl build_step \<lparr>heap = [], root = [], stack = []\<rparr> flat"

text \<open>
  The value of an object of the store as a tree. Objects are created before they are linked,
  so a reference always leads to a larger address; \<open>forward_refs\<close> follows the references of
  that kind, which makes the reading a terminating recursion. In the stores that \<open>buildTree\<close>
  builds every reference is of that kind (lemma \<open>build_loop_forward_refs\<close>), so that nothing is
  left out.
\<close>

definition forward_refs :: "node_obj list \<Rightarrow> nat \<Rightarrow> nat list" where
  "forward_refs h a = filter (\<lambda>c. a < c \<and> c < length h) (obj_children (h ! a))"

function reify :: "node_obj list \<Rightarrow> nat \<Rightarrow> HeadingNode" where
  "reify h a =
     HeadingNode (obj_id (h ! a)) (obj_text (h ! a)) (obj_level (h ! a))
       (map (reify h) (forward_refs h a))"
  by pat_completeness auto
termination
  by (relation "measure (\<lambda>(h, a). length h - a)") (auto simp: forward_refs_def)

definition buildTree :: "flat_item list \<Rightarrow> HeadingNode list" where
  "buildTree flat = (let s = build_loop flat in map (reify (heap s)) (root s))"

section \<open>The built tree as the claims word it\<close>

text \<open>
  The entry that a node stands for: its \<open>id\<close>, \<open>text\<close> and \<open>level\<close>. A tree is strictly
  deeper when every child of its root has a level strictly greater than the level of the
  root and is strictly deeper itself, so that the condition holds at every depth.
\<close>

definition entry_of :: "HeadingNode \<Rightarrow> flat_item" where
  "entry_of n = \<lparr>id_f = id_n n, text_f = text_n n, level_f = level n\<rparr>"

fun strictly_deeper :: "HeadingNode \<Rightarrow> bool" where
  "strictly_deeper (HeadingNode i t l cs) = list_all (\<lambda>c. l < level c \<and> strictly_deeper c) cs"

section \<open>Notions used in the proofs about \<open>buildTree\<close>\<close>

text \<open>
  The pre-order list of a tree as a function of the tree alone; the addresses below an
  object in that order; the entry that an object of the store stands for; a path that
  starts at the last element of a list of addresses and goes on to the last child, which is
  what the stack holds; and the invariant of the loop of \<open>buildTree\<close>: references lead to
  larger addresses inside the store, a child has a greater level than its parent, the stack
  holds addresses of the store with their levels, the pre-order of the objects is the order
  of their creation, and the stack is such a path.
\<close>

fun preorder :: "HeadingNode \<Rightarrow> HeadingNode list" where
  "preorder (HeadingNode i t l cs) = HeadingNode i t l cs # concat (map preorder cs)"

function pre_addrs :: "node_obj list \<Rightarrow> nat \<Rightarrow> nat list" where
  "pre_addrs h a = a # concat (map (pre_addrs h) (forward_refs h a))"
  by pat_completeness auto
termination
  by (relation "measure (\<lambda>(h, a). length h - a)") (auto simp: forward_refs_def)

definition entry_of_obj :: "node_obj \<Rightarrow> flat_item" where
  "entry_of_obj x = \<lparr>id_f = obj_id x, text_f = obj_text x, level_f = obj_level x\<rparr>"

fun is_spine :: "node_obj list \<Rightarrow> nat list \<Rightarrow> nat list \<Rightarrow> bool" where
  "is_spine h r [] = True"
| "is_spine h r (a # as) = (r \<noteq> [] \<and> last r = a \<and> is_spine h (obj_children (h ! a)) as)"

definition refs_ok :: "node_obj list \<Rightarrow> bool" where
  "refs_ok h = (\<forall>a < length h. \<forall>c \<in> set (obj_children (h ! a)). a < c \<and> c < length h)"

definition levels_ok :: "node_obj list \<Rightarrow> bool" where
  "levels_ok h =
     (\<forall>a < length h. \<forall>c \<in> set (obj_children (h ! a)). obj_level (h ! a) < obj_level (h ! c))"

definition stack_ok :: "node_obj list \<Rightarrow> (nat \<times> int) list \<Rightarrow> bool" where
  "stack_ok h st = (\<forall>e \<in> set st. fst e < length h \<and> snd e = obj_level (h ! fst e))"

definition build_inv :: "build_state \<Rightarrow> bool" where
  "build_inv s =
     (refs_ok (heap s) \<and> levels_ok (heap s) \<and> stack_ok (heap s) (stack s) \<and>
      set (root s) \<subseteq> {..<length (heap s)} \<and>
      concat (map (pre_addrs (heap s)) (root s)) = [0..<length (heap s)] \<and>
      is_spine (heap s) (root s) (map fst (stack s)))"

section \<open>The filter as the specification words it\<close>

text \<open>
  A text contains a query as a case-insensitive substring when some contiguous part of the
  text has the length of the query and agrees with it character by character once the case
  of letters is ignored. A node is hit by a query when its own text or the text of one of its
  descendants contains the query in that sense. \<open>spec_filterTree\<close> keeps the hit nodes of a
  list in their order and filters the children of every node it keeps in the same way.
  \<open>pruned\<close> is the copy that \<open>prune\<close> pushes for a node it keeps.
\<close>

definition ci_equal :: "string \<Rightarrow> string \<Rightarrow> bool" where
  "ci_equal a b = list_all2 (\<lambda>x y. lower_char x = lower_char y) a b"

definition ci_contains :: "string \<Rightarrow> string \<Rightarrow> bool" where
  "ci_contains t q = (\<exists>pre mid suf. t = pre @ mid @ suf \<and> ci_equal mid q)"

fun descendants :: "HeadingNode \<Rightarrow> HeadingNode list" where
  "descendants (HeadingNode i t l cs) = concat (map (\<lambda>c. c # descendants c) cs)"

definition subtree_hit :: "string \<Rightarrow> HeadingNode \<Rightarrow> bool" where
  "subtree_hit query n =
     (ci_contains (text_n n) query \<or> (\<exists>d \<in> set (descendants n). ci_contains (text_n d) query))"

fun spec_keep :: "string \<Rightarrow> HeadingNode \<Rightarrow> HeadingNode" where
  "spec_keep query (HeadingNode i t l cs) =
     HeadingNode i t l (map (spec_keep query) (filter (subtree_hit query) cs))"

definition spec_filterTree :: "HeadingNode list \<Rightarrow> string \<Rightarrow> HeadingNode list" where
  "spec_filterTree nodes query = map (spec_keep query) (filter (subtree_hit query) nodes)"

definition pruned :: "string \<Rightarrow> HeadingNode \<Rightarrow> HeadingNode" where
  "pruned q n = HeadingNode (id_n n) (text_n n) (level n) (prune q (children n))"

section \<open>Heading extraction\<close>





text \<open>
  White space of JavaScript among the code units below 256: tab, line feed, vertical tab,
  form feed, carriage return, space and no-break space. \<open>trim\<close> removes it at both ends and
  \<open>replace(/\s+/g, " ")\<close> puts one space for every maximal run of it.
\<close>

definition is_space :: "char \<Rightarrow> bool" where
  "is_space c = ((of_char c :: nat) \<in> {9, 10, 11, 12, 13, 32, 160})"


function collapse_ws :: "string \<Rightarrow> string" where
  "collapse_ws [] = []"
| "collapse_ws (c # s) =
     (if is_space c then CHR '' '' # collapse_ws (dropWhile is_space s)
      else c # collapse_ws s)"
  by pat_completeness auto
termination
  by (relation "measure length") (auto simp: length_dropWhile_le less_Suc_eq_le)

text \<open>The decimal numeral of a number, as a template literal prints an index.\<close>

function string_of_nat :: "nat \<Rightarrow> string" where
  "string_of_nat n =
     (if n < 10 then [char_of (48 + n)]
      else string_of_nat (n div 10) @ [char_of (48 + n mod 10)])"
  by pat_completeness auto
termination
  by (relation "measure id") auto




section \<open>Heading extraction as the claims word it\<close>








section \<open>The image-proxy route\<close>

text \<open>
  The route handler \<open>GET\<close> and what it calls. The request carries the query parameters of
  its URL, and \<open>searchParams.get\<close> returns the first value of a name or \<open>null\<close> (\<open>None\<close>). The
  handler lives in a runtime that this repository does not contain: the constructor \<open>URL\<close>
  (it throws on a string that is no URL: \<open>None\<close>), \<open>getGitHubToken\<close> of \<open>@/lib/github\<close> (the
  token of the session, or none) and \<open>fetch\<close> (it throws when the request fails: \<open>None\<close>). They
  are the fields of the environment \<open>env\<close>. Of an upstream response the handler reads the
  status, the header \<open>content-type\<close> and the body, whose reading can fail as well.
\<close>

record request =
  searchParams :: "(string \<times> string) list"

record URL =
  hostname :: string

record fetch_request =
  fetch_url :: string
  fetch_headers :: "(string \<times> string) list"
  fetch_redirect :: string

record upstream_response =
  up_status :: nat
  up_content_type :: "string option"
  up_arrayBuffer :: "nat list option"

record env =
  new_URL :: "string \<Rightarrow> URL option"
  getGitHubToken :: "string option"
  fetch :: "fetch_request \<Rightarrow> upstream_response option"

datatype response_body = JsonError string | Bytes "nat list"

record response =
  status :: nat
  body :: response_body
  headers :: "(string \<times> string) list"

definition ALLOWED_HOSTS :: "string set" where
  "ALLOWED_HOSTS =
     {''github.com'', ''raw.githubusercontent.com'',
      ''private-user-images.githubusercontent.com'',
      ''github-production-user-asset-6210df.s3.amazonaws.com''}"

text \<open>
  \<open>NextResponse.json({ error: message }, { status })\<close>: a response with that status whose
  body is the JSON object with the one field \<open>error\<close>. The model takes the call to build
  that response for every status it is given; which statuses the \<open>Response\<close> constructor of
  the runtime accepts is not part of it. \<open>ok\<close> is the property of a response of \<open>fetch\<close>:
  the status is in the range 200 to 299.
\<close>

definition NextResponse_json :: "string \<Rightarrow> nat \<Rightarrow> response" where
  "NextResponse_json message st =
     \<lparr>status = st, body = JsonError message,
      headers = [(''content-type'', ''application/json'')]\<rparr>"

definition ok :: "upstream_response \<Rightarrow> bool" where
  "ok res = (200 \<le> up_status res \<and> up_status res \<le> 299)"

definition upstream_request :: "string \<Rightarrow> string \<Rightarrow> fetch_request" where
  "upstream_request url token =
     \<lparr>fetch_url = url,
      fetch_headers = [(''Authorization'', ''token '' @ token), (''Accept'', ''image/*,*/*'')],
      fetch_redirect = ''follow''\<rparr>"

text \<open>
  The handler returns its response together with the requests it has sent upstream. The
  tests \<open>!url\<close> and \<open>!token\<close> hold for \<open>null\<close> and for the empty string. Everything from the
  call of \<open>fetch\<close> to the construction of the response is inside \<open>try\<close>, so that a failure of
  \<open>fetch\<close> or of \<open>res.arrayBuffer()\<close> ends in the response of the \<open>catch\<close> clause.
\<close>

definition GET_run :: "env \<Rightarrow> request \<Rightarrow> response \<times> fetch_request list" where
  "GET_run e req =
     (case map_of (searchParams req) ''url'' of
        None \<Rightarrow> (NextResponse_json ''Missing url parameter'' 400, [])
      | Some url \<Rightarrow>
          if url = [] then (NextResponse_json ''Missing url parameter'' 400, [])
          else
            (case new_URL e url of
               None \<Rightarrow> (NextResponse_json ''Invalid URL'' 400, [])
             | Some parsed \<Rightarrow>
                 if hostname parsed \<notin> ALLOWED_HOSTS
                 then (NextResponse_json ''Host not allowed'' 403, [])
                 else
                   (case getGitHubToken e of
                      None \<Rightarrow> (NextResponse_json ''Not authenticated'' 401, [])
                    | Some token \<Rightarrow>
                        if token = [] then (NextResponse_json ''Not authenticated'' 401, [])
                        else
                          (case fetch e (upstream_request url token) of
                             None \<Rightarrow>
                               (NextResponse_json ''Failed to fetch image'' 502,
                                [upstream_request url token])
                           | Some res \<Rightarrow>
                               if \<not> ok res
                               then (NextResponse_json
                                       (''Upstream error ('' @ string_of_nat (up_status res) @ '')'')
                                       (up_status res),
                                     [upstream_request url token])
                               else
                                 (let contentType =
                                        (case up_content_type res of
                                           None \<Rightarrow> ''application/octet-stream''
                                         | Some ct \<Rightarrow>
                                             if ct = [] then ''application/octet-stream'' else ct)
                                  in case up_arrayBuffer res of
                                       None \<Rightarrow>
                                         (NextResponse_json ''Failed to fetch image'' 502,
                                          [upstream_request url token])
                                     | Some b \<Rightarrow>
                                         (\<lparr>status = 200, body = Bytes b,
                                           headers =
                                             [(''Content-Type'', contentType),
                                              (''Cache-Control'',
                                               ''public, max-age=3600, immutable'')]\<rparr>,
                                          [upstream_request url token]))))))"

definition GET :: "env \<Rightarrow> request \<Rightarrow> response" where
  "GET e req = fst (GET_run e req)"

definition GET_upstream :: "env \<Rightarrow> request \<Rightarrow> fetch_request list" where
  "GET_upstream e req = snd (GET_run e req)"

section \<open>The route as the claims word it, and example requests\<close>

text \<open>
  An error response: the given status and a JSON body with an error message. The examples
  are a request for an image on \<open>github.com\<close>, a request for another host, a request without
  the parameter, and an environment whose \<open>URL\<close> constructor knows these two addresses, with
  the token and the upstream answer as parameters.
\<close>

definition error_response :: "response \<Rightarrow> nat \<Rightarrow> bool" where
  "error_response r st = (status r = st \<and> (\<exists>message. body r = JsonError message))"

definition example_URL :: "string \<Rightarrow> URL option" where
  "example_URL u =
     (if u = ''https://github.com/o/r/raw/a.png'' then Some \<lparr>hostname = ''github.com''\<rparr>
      else if u = ''https://example.org/a.png'' then Some \<lparr>hostname = ''example.org''\<rparr>
      else None)"

definition example_env :: "string option \<Rightarrow> upstream_response option \<Rightarrow> env" where
  "example_env token answer =
     \<lparr>new_URL = example_URL, getGitHubToken = token, fetch = (\<lambda>r. answer)\<rparr>"

definition github_request :: request where
  "github_request = \<lparr>searchParams = [(''url'', ''https://github.com/o/r/raw/a.png'')]\<rparr>"




definition png_answer :: "string option \<Rightarrow> upstream_response" where
  "png_answer ct = \<lparr>up_status = 200, up_content_type = ct, up_arrayBuffer = Some [137, 80, 78, 71]\<rparr>"


section \<open>The outline component\<close>

text \<open>
  The state of \<open>DocumentOutline\<close>: one field for each \<open>useState\<close>. The refs hold DOM elements
  and are not part of the model.
\<close>

record outline_state =
  headings :: "HeadingNode list"
  activeId :: "string option"
  isExpanded :: bool
  searchQuery :: string
  focusedIndex :: int
  mobileOpen :: bool

definition SESSION_KEY :: string where
  "SESSION_KEY = ''doc-outline-expanded''"

text \<open>
  The initializer of \<open>isExpanded\<close>. The argument is the session storage of the window, a map
  from keys to strings, or \<open>None\<close> where there is no window (\<open>typeof window === "undefined"\<close>).
\<close>

definition initial_isExpanded :: "(string \<rightharpoonup> string) option \<Rightarrow> bool" where
  "initial_isExpanded window =
     (case window of
        None \<Rightarrow> True
      | Some sessionStorage \<Rightarrow>
          (case sessionStorage SESSION_KEY of
             None \<Rightarrow> True
           | Some stored \<Rightarrow> stored = ''true''))"

definition initial_state :: "(string \<rightharpoonup> string) option \<Rightarrow> outline_state" where
  "initial_state window =
     \<lparr>headings = [], activeId = None, isExpanded = initial_isExpanded window,
      searchQuery = [], focusedIndex = - 1, mobileOpen = False\<rparr>"

text \<open>
  The effect that persists the flag: \<open>sessionStorage.setItem(SESSION_KEY, String(isExpanded))\<close>
  where there is a window.
\<close>

definition String_bool :: "bool \<Rightarrow> string" where
  "String_bool b = (if b then ''true'' else ''false'')"

definition persist_effect ::
  "(string \<rightharpoonup> string) option \<Rightarrow> bool \<Rightarrow> (string \<rightharpoonup> string) option" where
  "persist_effect window expanded =
     (case window of
        None \<Rightarrow> None
      | Some sessionStorage \<Rightarrow> Some (sessionStorage(SESSION_KEY \<mapsto> String_bool expanded)))"

text \<open>The two memoized values: the tree on display and its flattening.\<close>

definition displayTree :: "outline_state \<Rightarrow> HeadingNode list" where
  "displayTree s =
     (if searchQuery s \<noteq> [] then filterTree (headings s) (searchQuery s) else headings s)"

definition flatList :: "outline_state \<Rightarrow> HeadingNode list" where
  "flatList s = flattenTree (displayTree s)"

text \<open>
  \<open>navigateTo\<close> does nothing when the document has no element with the id
  (\<open>getElementById\<close> is the test); otherwise it makes the heading active and closes the
  drawer. The hash it writes and the scrolling are effects on the browser that the state
  does not hold.
\<close>

definition navigateTo :: "(string \<Rightarrow> bool) \<Rightarrow> string \<Rightarrow> outline_state \<Rightarrow> outline_state" where
  "navigateTo getElementById ident s =
     (if \<not> getElementById ident then s
      else s\<lparr>activeId := Some ident, mobileOpen := False\<rparr>)"

text \<open>
  \<open>handleKeyDown\<close>, the handler of the list, by the key of the event, with the cases of
  the \<open>switch\<close> in their order. The state updates are the result; \<open>preventDefault\<close> and the
  focus that Escape gives to the search box are effects on the browser that the state does
  not hold. The item at the focused index is read only after the test that the index is in
  range.
\<close>

definition handleKeyDown :: "(string \<Rightarrow> bool) \<Rightarrow> outline_state \<Rightarrow> string \<Rightarrow> outline_state" where
  "handleKeyDown getElementById s key =
     (if length (flatList s) = 0 then s
      else if key = ''ArrowDown''
        then s\<lparr>focusedIndex := min (focusedIndex s + 1) (int (length (flatList s)) - 1)\<rparr>
      else if key = ''ArrowUp''
        then s\<lparr>focusedIndex := max (focusedIndex s - 1) 0\<rparr>
      else if key = ''Enter'' \<or> key = '' ''
        then (if focusedIndex s \<ge> 0 \<and> focusedIndex s < int (length (flatList s))
              then navigateTo getElementById (id_n (flatList s ! nat (focusedIndex s))) s
              else s)
      else if key = ''Escape''
        then (if searchQuery s \<noteq> [] then s\<lparr>searchQuery := []\<rparr>
              else if mobileOpen s then s\<lparr>mobileOpen := False\<rparr>
              else s)
      else if key = ''Home''
        then s\<lparr>focusedIndex := 0\<rparr>
      else if key = ''End''
        then s\<lparr>focusedIndex := int (length (flatList s)) - 1\<rparr>
      else s)"

text \<open>
  What can happen to the mounted component: a key on the list, input into the search box
  (\<open>onChange\<close>), a key in the search box, a click on the button that clears the query, on the
  button that expands or collapses the panel, on the floating button, on the overlay or
  the close button of the drawer, on an item, the headings extracted after the content has
  become visible, and the heading that the scroll tracking finds nearest.
\<close>

datatype event =
  KeyDown string
  | SearchChange string
  | SearchKeyDown string
  | ClearSearch
  | ToggleExpanded
  | OpenMobile
  | CloseMobile
  | ItemClick string
  | HeadingsExtracted "HeadingNode list"
  | ActiveHeading string

fun handle :: "(string \<Rightarrow> bool) \<Rightarrow> outline_state \<Rightarrow> event \<Rightarrow> outline_state" where
  "handle doc s (KeyDown key) = handleKeyDown doc s key"
| "handle doc s (SearchChange v) = s\<lparr>searchQuery := v, focusedIndex := - 1\<rparr>"
| "handle doc s (SearchKeyDown key) =
     (if key = ''Escape'' \<and> searchQuery s \<noteq> [] then s\<lparr>searchQuery := []\<rparr> else s)"
| "handle doc s ClearSearch = s\<lparr>searchQuery := []\<rparr>"
| "handle doc s ToggleExpanded = s\<lparr>isExpanded := \<not> isExpanded s\<rparr>"
| "handle doc s OpenMobile = s\<lparr>mobileOpen := True\<rparr>"
| "handle doc s CloseMobile = s\<lparr>mobileOpen := False\<rparr>"
| "handle doc s (ItemClick ident) = navigateTo doc ident s"
| "handle doc s (HeadingsExtracted hs) = s\<lparr>headings := hs\<rparr>"
| "handle doc s (ActiveHeading ident) = s\<lparr>activeId := Some ident\<rparr>"

text \<open>
  The component together with the window. Mounting initializes the state from the session
  storage and runs the effect once; after an event the effect runs again when \<open>isExpanded\<close>,
  its only dependency, has changed.
\<close>

definition mount ::
  "(string \<rightharpoonup> string) option \<Rightarrow> outline_state \<times> (string \<rightharpoonup> string) option" where
  "mount window =
     (initial_state window, persist_effect window (isExpanded (initial_state window)))"

definition step ::
  "(string \<Rightarrow> bool) \<Rightarrow> outline_state \<times> (string \<rightharpoonup> string) option \<Rightarrow> event \<Rightarrow>
   outline_state \<times> (string \<rightharpoonup> string) option" where
  "step doc c ev =
     (let s' = handle doc (fst c) ev
      in (s', if isExpanded s' \<noteq> isExpanded (fst c)
              then persist_effect (snd c) (isExpanded s') else snd c))"

definition run ::
  "(string \<Rightarrow> bool) \<Rightarrow> (string \<rightharpoonup> string) option \<Rightarrow> event list \<Rightarrow>
   outline_state \<times> (string \<rightharpoonup> string) option" where
  "run doc window evs = foldl (step doc) (mount window) evs"

text \<open>
  What the component renders. \<open>None\<close> is \<open>null\<close>. Otherwise there are the desktop pane, which
  shows the rail of dots (one for each of the first 40 headings) when collapsed and the
  outline content when expanded, and the mobile part, which shows the floating button or
  the drawer with the outline content. The outline content is the search box, shown when
  the panel is expanded, and the list: the message that nothing matches the query, or the
  items.
\<close>

datatype list_view = NoMatch string | Items "HeadingNode list"

record outline_content =
  search_box :: bool
  list_view :: list_view

record rendered =
  desktop_rail :: "HeadingNode list option"
  desktop_content :: "outline_content option"
  mobile_button :: bool
  mobile_drawer :: "outline_content option"

definition outlineContent :: "outline_state \<Rightarrow> outline_content" where
  "outlineContent s =
     \<lparr>search_box = isExpanded s,
      list_view = (if length (flatList s) = 0 \<and> searchQuery s \<noteq> []
                   then NoMatch (searchQuery s) else Items (flatList s))\<rparr>"

definition DocumentOutline :: "bool \<Rightarrow> outline_state \<Rightarrow> rendered option" where
  "DocumentOutline visible s =
     (if \<not> visible \<or> length (headings s) = 0 then None
      else Some
        \<lparr>desktop_rail = (if \<not> isExpanded s then Some (take 40 (flattenTree (headings s))) else None),
         desktop_content = (if isExpanded s then Some (outlineContent s) else None),
         mobile_button = (\<not> mobileOpen s),
         mobile_drawer = (if mobileOpen s then Some (outlineContent s) else None)\<rparr>)"

section \<open>Example states of the component\<close>

text \<open>
  Two states that sequences of events lead to, in a document where every id has its
  element and with an empty session storage at the start. In the first the panel is
  collapsed after a query that matches no heading was typed. In the second the last item
  of three had the focus when the headings were extracted anew and only one was found.
\<close>

definition collapsed_no_match_state :: outline_state where
  "collapsed_no_match_state =
     fst (run (\<lambda>ident. True) (Some Map.empty)
       [HeadingsExtracted [HeadingNode ''intro'' ''Intro'' 1 []],
        SearchChange ''zzz'', ToggleExpanded])"

definition stale_focus_state :: outline_state where
  "stale_focus_state =
     fst (run (\<lambda>ident. True) (Some Map.empty)
       [HeadingsExtracted
          [HeadingNode ''a'' ''A'' 1 [], HeadingNode ''b'' ''B'' 1 [], HeadingNode ''c'' ''C'' 1 []],
        KeyDown ''End'',
        HeadingsExtracted [HeadingNode ''a'' ''A'' 1 []]])"

definition expanded_no_match_state :: outline_state where
  "expanded_no_match_state =
     fst (run (\<lambda>ident. True) (Some Map.empty)
       [HeadingsExtracted [HeadingNode ''intro'' ''Intro'' 1 []],
        SearchChange ''zzz'', OpenMobile])"

chapter \<open>Properties\<close>

section \<open>The tree that \<open>buildTree\<close> builds\<close>

declare pre_addrs.simps [simp del] reify.simps [simp del] pop_loop.simps [simp del]

lemma walk_preorder: "walk ns result = result @ concat (map preorder ns)"
  by (induction ns result rule: walk.induct) simp_all

lemma flattenTree_preorder: "flattenTree ns = concat (map preorder ns)"
  by (simp add: flattenTree_def walk_preorder)

lemma preorder_reify: "preorder (reify h a) = map (reify h) (pre_addrs h a)"
proof (induction h a rule: reify.induct)
  case (1 h a)
  have "preorder (reify h a)
      = reify h a # concat (map preorder (map (reify h) (forward_refs h a)))"
    by (subst reify.simps, simp, subst reify.simps, simp)
  also have "map preorder (map (reify h) (forward_refs h a))
      = map (\<lambda>c. map (reify h) (pre_addrs h c)) (forward_refs h a)"
    using 1 by simp
  also have "reify h a # concat (map (\<lambda>c. map (reify h) (pre_addrs h c)) (forward_refs h a))
      = map (reify h) (a # concat (map (pre_addrs h) (forward_refs h a)))"
    by (simp add: map_concat comp_def)
  also have "a # concat (map (pre_addrs h) (forward_refs h a)) = pre_addrs h a"
    by (rule pre_addrs.simps[symmetric])
  finally show ?case .
qed

lemma flattenTree_map_reify:
  "flattenTree (map (reify h) r) = map (reify h) (concat (map (pre_addrs h) r))"
  by (simp add: flattenTree_preorder map_concat comp_def preorder_reify)


subsection \<open>pop_loop\<close>

lemma pop_loop_prefix: "prefix (pop_loop st l) st"
proof (induction st l rule: pop_loop.induct)
  case (1 st l)
  show ?case
  proof (cases "st \<noteq> [] \<and> snd (last st) \<ge> l")
    case True
    with 1 have "prefix (pop_loop (butlast st) l) (butlast st)" by simp
    moreover have "prefix (butlast st) st" by (simp add: prefixeq_butlast)
    ultimately have "prefix (pop_loop (butlast st) l) st" by (rule prefix_order.trans)
    with True show ?thesis by (subst pop_loop.simps) simp
  next
    case False
    then show ?thesis by (subst pop_loop.simps) auto
  qed
qed

lemma pop_loop_top: "pop_loop st l \<noteq> [] \<Longrightarrow> snd (last (pop_loop st l)) < l"
proof (induction st l rule: pop_loop.induct)
  case (1 st l)
  show ?case
  proof (cases "st \<noteq> [] \<and> snd (last st) \<ge> l")
    case True
    with 1 show ?thesis by (subst pop_loop.simps, subst (asm) (2) pop_loop.simps) simp
  next
    case False
    with 1(2) show ?thesis by (subst pop_loop.simps, subst (asm) pop_loop.simps) auto
  qed
qed

subsection \<open>Stores with forward references\<close>

lemma refs_okD:
  "refs_ok h \<Longrightarrow> a < length h \<Longrightarrow> c \<in> set (obj_children (h ! a)) \<Longrightarrow> a < c \<and> c < length h"
  unfolding refs_ok_def by blast

lemma refs_ok_children:
  assumes "refs_ok h" "a < length h"
  shows "set (obj_children (h ! a)) \<subseteq> {Suc a..<length h}"
proof
  fix c assume "c \<in> set (obj_children (h ! a))"
  with assms have "a < c \<and> c < length h" by (rule refs_okD)
  then show "c \<in> {Suc a..<length h}" by simp
qed

lemma forward_refs_ok:
  assumes "refs_ok h" "a < length h"
  shows "forward_refs h a = obj_children (h ! a)"
proof -
  have "\<forall>c \<in> set (obj_children (h ! a)). a < c \<and> c < length h"
    using assms refs_okD by blast
  then show ?thesis unfolding forward_refs_def by simp
qed

lemma pre_addrs_ok:
  "refs_ok h \<Longrightarrow> a < length h \<Longrightarrow>
   pre_addrs h a = a # concat (map (pre_addrs h) (obj_children (h ! a)))"
  by (subst pre_addrs.simps) (simp add: forward_refs_ok)

lemma pre_addrs_range:
  "refs_ok h \<Longrightarrow> a < length h \<Longrightarrow> b \<in> set (pre_addrs h a) \<Longrightarrow> a \<le> b \<and> b < length h"
proof (induction h a arbitrary: b rule: pre_addrs.induct)
  case (1 h a)
  from 1(4) have "b = a \<or> (\<exists>c \<in> set (forward_refs h a). b \<in> set (pre_addrs h c))"
    by (subst (asm) pre_addrs.simps) auto
  then show ?case
  proof
    assume "b = a"
    with 1(3) show ?thesis by simp
  next
    assume "\<exists>c \<in> set (forward_refs h a). b \<in> set (pre_addrs h c)"
    then obtain c where c: "c \<in> set (forward_refs h a)" "b \<in> set (pre_addrs h c)" by blast
    from c(1) have "a < c" "c < length h" by (auto simp: forward_refs_def)
    with 1(1)[OF c(1) 1(2) _ c(2)] show ?thesis by simp
  qed
qed

lemma pre_addrs_self: "a \<in> set (pre_addrs h a)"
  by (subst pre_addrs.simps) simp

lemma pre_addrs_cong:
  "refs_ok h \<Longrightarrow> a < length h \<Longrightarrow> length h \<le> length h' \<Longrightarrow>
   (\<And>b. b \<in> set (pre_addrs h a) \<Longrightarrow> h' ! b = h ! b) \<Longrightarrow>
   pre_addrs h' a = pre_addrs h a"
proof (induction h a rule: pre_addrs.induct)
  case (1 h a)
  have same: "h' ! a = h ! a" using 1(5) pre_addrs_self by blast
  have fr: "forward_refs h a = obj_children (h ! a)"
    using 1(2,3) by (rule forward_refs_ok)
  have "\<forall>c \<in> set (obj_children (h ! a)). a < c \<and> c < length h'"
    using refs_okD[OF 1(2,3)] 1(4) by fastforce
  then have fr': "forward_refs h' a = obj_children (h ! a)"
    unfolding forward_refs_def same by simp
  have "pre_addrs h' c = pre_addrs h c" if c: "c \<in> set (forward_refs h a)" for c
  proof (rule 1(1)[OF c 1(2) _ 1(4)])
    from c show "c < length h" by (simp add: forward_refs_def)
  next
    fix b assume "b \<in> set (pre_addrs h c)"
    with c have "b \<in> set (pre_addrs h a)" by (subst pre_addrs.simps) auto
    then show "h' ! b = h ! b" by (rule 1(5))
  qed
  then have m: "map (pre_addrs h') (forward_refs h a) = map (pre_addrs h) (forward_refs h a)"
    by (intro map_cong refl)
  have "pre_addrs h' a = a # concat (map (pre_addrs h') (forward_refs h' a))"
    by (rule pre_addrs.simps)
  also have "forward_refs h' a = forward_refs h a" by (simp only: fr fr')
  also note m
  also have "a # concat (map (pre_addrs h) (forward_refs h a)) = pre_addrs h a"
    by (rule pre_addrs.simps[symmetric])
  finally show ?case .
qed


subsection \<open>The rightmost path\<close>

lemma is_spine_prefix: "is_spine h r as \<Longrightarrow> prefix bs as \<Longrightarrow> is_spine h r bs"
proof (induction as arbitrary: r bs)
  case Nil
  then show ?case by simp
next
  case (Cons a as)
  then show ?case by (cases bs) auto
qed

lemma is_spine_range:
  "refs_ok h \<Longrightarrow> is_spine h r as \<Longrightarrow> set r \<subseteq> {k..<length h} \<Longrightarrow> set as \<subseteq> {k..<length h}"
proof (induction as arbitrary: r k)
  case Nil
  then show ?case by simp
next
  case (Cons a as)
  from Cons(3) have r: "r \<noteq> []" "last r = a" and sp: "is_spine h (obj_children (h ! a)) as"
    by auto
  from r Cons(4) have a: "k \<le> a" "a < length h"
    using last_in_set[of r] by auto
  have "set (obj_children (h ! a)) \<subseteq> {Suc a..<length h}"
    using Cons(2) a(2) by (rule refs_ok_children)
  from Cons(1)[OF Cons(2) sp this] a show ?case by auto
qed

lemma is_spine_pre_addrs:
  "refs_ok h \<Longrightarrow> is_spine h r as \<Longrightarrow> set r \<subseteq> {..<length h} \<Longrightarrow>
   set as \<subseteq> set (concat (map (pre_addrs h) r))"
proof (induction as arbitrary: r)
  case Nil
  then show ?case by simp
next
  case (Cons a as)
  from Cons(3) have r: "r \<noteq> []" "last r = a" and sp: "is_spine h (obj_children (h ! a)) as"
    by auto
  from r Cons(4) have a: "a < length h" "a \<in> set r"
    using last_in_set[of r] by auto
  have ch: "set (obj_children (h ! a)) \<subseteq> {..<length h}"
    using refs_ok_children[OF Cons(2) a(1)] by (simp add: subset_iff)
  have "set as \<subseteq> set (concat (map (pre_addrs h) (obj_children (h ! a))))"
    by (rule Cons(1)[OF Cons(2) sp ch])
  also have "\<dots> \<subseteq> set (pre_addrs h a)"
    by (simp add: pre_addrs_ok[OF Cons(2) a(1)] subset_insertI)
  finally have as: "set as \<subseteq> set (pre_addrs h a)" .
  have "set (a # as) \<subseteq> set (pre_addrs h a)"
    using as pre_addrs_self[of a h] by simp
  also have "\<dots> \<subseteq> set (concat (map (pre_addrs h) r))"
    using a(2) by auto
  finally show ?case .
qed

lemma pre_addrs_leaf:
  "a < length h \<Longrightarrow> obj_children (h ! a) = [] \<Longrightarrow> pre_addrs h a = [a]"
  by (subst pre_addrs.simps) (simp add: forward_refs_def)

lemma pre_addrs_extend:
  assumes "refs_ok h" "a < length h"
  shows "pre_addrs (h @ [ob]) a = pre_addrs h a"
proof (rule pre_addrs_cong[OF assms])
  show "length h \<le> length (h @ [ob])" by simp
next
  fix b assume "b \<in> set (pre_addrs h a)"
  with assms have "b < length h" using pre_addrs_range by blast
  then show "(h @ [ob]) ! b = h ! b" by (simp add: nth_append)
qed

lemma pre_addrs_update:
  assumes "refs_ok h" "a < length h" "p \<notin> set (pre_addrs h a)"
  shows "pre_addrs ((h @ [ob])[p := x]) a = pre_addrs h a"
proof (rule pre_addrs_cong[OF assms(1,2)])
  show "length h \<le> length ((h @ [ob])[p := x])" by simp
next
  fix b assume b: "b \<in> set (pre_addrs h a)"
  with assms have "b < length h" "b \<noteq> p" using pre_addrs_range by blast+
  then show "(h @ [ob])[p := x] ! b = h ! b" by (simp add: nth_append)
qed

lemma concat_pre_addrs_update:
  assumes "refs_ok h" "set r \<subseteq> {..<length h}" "p \<notin> set (concat (map (pre_addrs h) r))"
  shows "concat (map (pre_addrs ((h @ [ob])[p := x])) r) = concat (map (pre_addrs h) r)"
proof -
  have "pre_addrs ((h @ [ob])[p := x]) a = pre_addrs h a" if "a \<in> set r" for a
    using assms that by (intro pre_addrs_update) auto
  then have "map (pre_addrs ((h @ [ob])[p := x])) r = map (pre_addrs h) r"
    by (intro map_cong refl)
  then show ?thesis by (rule arg_cong)
qed

lemma forward_refs_eq:
  "h' ! a = x \<Longrightarrow> (\<forall>c \<in> set (obj_children x). a < c \<and> c < length h') \<Longrightarrow>
   forward_refs h' a = obj_children x"
  by (simp add: forward_refs_def)

lemma obj_children_push_child [simp]:
  "obj_children (push_child x n) = obj_children x @ [n]"
  by (simp add: push_child_def)

lemma pre_addrs_push:
  assumes ok: "refs_ok h" and ob: "obj_children ob = []"
  shows "is_spine h r as \<Longrightarrow> as \<noteq> [] \<Longrightarrow> set r \<subseteq> {..<length h} \<Longrightarrow>
     distinct (concat (map (pre_addrs h) r)) \<Longrightarrow>
     concat (map (pre_addrs ((h @ [ob])[last as := push_child (h ! last as) (length h)])) r)
       = concat (map (pre_addrs h) r) @ [length h]"
proof (induction as arbitrary: r)
  case Nil
  then show ?case by simp
next
  case (Cons a as)
  define p where "p = last (a # as)"
  define x where "x = push_child (h ! p) (length h)"
  define h' where "h' = (h @ [ob])[p := x]"
  have len: "length h' = Suc (length h)" by (simp add: h'_def)
  from Cons(2) have r: "r \<noteq> []" "last r = a" and sp: "is_spine h (obj_children (h ! a)) as"
    by auto
  define r0 where "r0 = butlast r"
  from r have r_eq: "r = r0 @ [a]" unfolding r0_def by (metis append_butlast_last_id)
  from Cons(4) r_eq have a: "a < length h" and r0: "set r0 \<subseteq> {..<length h}" by auto
  have ch: "set (obj_children (h ! a)) \<subseteq> {Suc a..<length h}"
    using ok a by (rule refs_ok_children)
  then have chr: "set (obj_children (h ! a)) \<subseteq> {..<length h}"
    by (simp add: subset_iff)
  have pa: "pre_addrs h a = a # concat (map (pre_addrs h) (obj_children (h ! a)))"
    using ok a by (rule pre_addrs_ok)
  from Cons(5) r_eq have d: "distinct (pre_addrs h a)"
    and dis: "set (concat (map (pre_addrs h) r0)) \<inter> set (pre_addrs h a) = {}"
    by auto
  from d pa have dch: "distinct (concat (map (pre_addrs h) (obj_children (h ! a))))"
    and a_notin: "a \<notin> set (concat (map (pre_addrs h) (obj_children (h ! a))))" by auto
  have p_in: "p \<in> set (pre_addrs h a)"
  proof (cases "as = []")
    case True
    then show ?thesis by (simp add: p_def pre_addrs_self)
  next
    case False
    from is_spine_pre_addrs[OF ok sp chr] False
    have "last as \<in> set (concat (map (pre_addrs h) (obj_children (h ! a))))"
      using last_in_set[of as] by blast
    then show ?thesis by (simp add: p_def False pa)
  qed
  with dis have "p \<notin> set (concat (map (pre_addrs h) r0))" by blast
  then have left: "concat (map (pre_addrs h') r0) = concat (map (pre_addrs h) r0)"
    unfolding h'_def by (rule concat_pre_addrs_update[OF ok r0])
  have right: "pre_addrs h' a = pre_addrs h a @ [length h]"
  proof (cases "as = []")
    case True
    then have p: "p = a" by (simp add: p_def)
    have h'a: "h' ! a = x"
      using a by (simp add: h'_def p)
    have "\<forall>c \<in> set (obj_children x). a < c \<and> c < length h'"
      using ch a by (auto simp: x_def p len subset_iff less_Suc_eq)
    with h'a have fr': "forward_refs h' a = obj_children (h ! a) @ [length h]"
      by (simp add: forward_refs_eq x_def p)
    have "concat (map (pre_addrs h') (obj_children (h ! a)))
        = concat (map (pre_addrs h) (obj_children (h ! a)))"
      unfolding h'_def p using a_notin
      by (intro concat_pre_addrs_update[OF ok chr])
    moreover have "pre_addrs h' (length h) = [length h]"
      using a ob by (intro pre_addrs_leaf) (simp_all add: h'_def p)
    ultimately have "a # concat (map (pre_addrs h') (forward_refs h' a)) = pre_addrs h a @ [length h]"
      by (simp add: fr' pa)
    then show ?thesis by (subst pre_addrs.simps)
  next
    case False
    have "last as \<in> set as" using False by simp
    with is_spine_range[OF ok sp ch] have "last as \<in> {Suc a..<length h}" by (rule subsetD)
    then have "Suc a \<le> last as" by simp
    then have ne: "p \<noteq> a" using False by (simp add: p_def)
    have h'a: "h' ! a = h ! a" using a ne by (simp add: h'_def nth_append)
    have "\<forall>c \<in> set (obj_children (h ! a)). a < c \<and> c < length h'"
      using ch by (auto simp: len subset_iff less_Suc_eq)
    with h'a have fr': "forward_refs h' a = obj_children (h ! a)"
      by (rule forward_refs_eq)
    have "concat (map (pre_addrs h') (obj_children (h ! a)))
        = concat (map (pre_addrs h) (obj_children (h ! a))) @ [length h]"
      using Cons(1)[OF sp False chr dch] False by (simp add: h'_def x_def p_def)
    then have "a # concat (map (pre_addrs h') (forward_refs h' a)) = pre_addrs h a @ [length h]"
      by (simp add: fr' pa)
    then show ?thesis by (subst pre_addrs.simps)
  qed
  have "concat (map (pre_addrs h') r) = concat (map (pre_addrs h) r) @ [length h]"
    unfolding r_eq using left right by simp
  then show ?case by (simp add: h'_def x_def p_def)
qed


subsection \<open>One iteration keeps the invariant\<close>

lemma refs_okI:
  "(\<And>a c. a < length h \<Longrightarrow> c \<in> set (obj_children (h ! a)) \<Longrightarrow> a < c \<and> c < length h) \<Longrightarrow>
   refs_ok h"
  unfolding refs_ok_def by blast

lemma levels_okD:
  "levels_ok h \<Longrightarrow> a < length h \<Longrightarrow> c \<in> set (obj_children (h ! a)) \<Longrightarrow>
   obj_level (h ! a) < obj_level (h ! c)"
  unfolding levels_ok_def by blast

lemma levels_okI:
  "(\<And>a c. a < length h \<Longrightarrow> c \<in> set (obj_children (h ! a)) \<Longrightarrow>
      obj_level (h ! a) < obj_level (h ! c)) \<Longrightarrow> levels_ok h"
  unfolding levels_ok_def by blast

lemma stack_okD: "stack_ok h st \<Longrightarrow> e \<in> set st \<Longrightarrow> fst e < length h \<and> snd e = obj_level (h ! fst e)"
  unfolding stack_ok_def by blast

lemma obj_level_push_child [simp]: "obj_level (push_child x n) = obj_level x"
  by (simp add: push_child_def)

text \<open>The store after a node was linked below the object at \<open>p\<close>.\<close>

lemma nth_linked:
  assumes "p < length h" "a < Suc (length h)"
  shows "(h @ [ob])[p := push_child (h ! p) (length h)] ! a =
     (if a = p then push_child (h ! p) (length h) else if a < length h then h ! a else ob)"
  using assms by (auto simp: nth_append nth_list_update less_Suc_eq)

lemma nth_extended:
  assumes "a < Suc (length h)"
  shows "(h @ [ob]) ! a = (if a < length h then h ! a else ob)"
  using assms by (auto simp: nth_append less_Suc_eq)

lemma refs_ok_extend:
  assumes "refs_ok h" "obj_children ob = []"
  shows "refs_ok (h @ [ob])"
proof (rule refs_okI)
  fix a c assume a: "a < length (h @ [ob])" and c: "c \<in> set (obj_children ((h @ [ob]) ! a))"
  from a have a': "a < Suc (length h)" by simp
  from c assms(2) have al: "a < length h" and cc: "c \<in> set (obj_children (h ! a))"
    by (auto simp: nth_extended[OF a'] split: if_splits)
  from refs_okD[OF assms(1) al cc] have "a < c \<and> c < length h" .
  then show "a < c \<and> c < length (h @ [ob])" by simp
qed

lemma refs_ok_linked:
  assumes "refs_ok h" "obj_children ob = []" "p < length h"
  shows "refs_ok ((h @ [ob])[p := push_child (h ! p) (length h)])"
proof (rule refs_okI)
  let ?h' = "(h @ [ob])[p := push_child (h ! p) (length h)]"
  fix a c assume a: "a < length ?h'" and c: "c \<in> set (obj_children (?h' ! a))"
  from a have a': "a < Suc (length h)" by simp
  from c assms(2,3) have al: "a < length h"
    and cc: "c \<in> set (obj_children (h ! a)) \<or> (a = p \<and> c = length h)"
    by (auto simp: nth_linked[OF assms(3) a'] split: if_splits)
  from cc have "a < c \<and> c < Suc (length h)"
  proof
    assume "c \<in> set (obj_children (h ! a))"
    with refs_okD[OF assms(1) al] show ?thesis by (simp add: less_Suc_eq)
  next
    assume "a = p \<and> c = length h"
    with assms(3) show ?thesis by simp
  qed
  then show "a < c \<and> c < length ?h'" by simp
qed

lemma levels_ok_extend:
  assumes "refs_ok h" "levels_ok h" "obj_children ob = []"
  shows "levels_ok (h @ [ob])"
proof (rule levels_okI)
  fix a c assume a: "a < length (h @ [ob])" and c: "c \<in> set (obj_children ((h @ [ob]) ! a))"
  from a have a': "a < Suc (length h)" by simp
  from c assms(3) have al: "a < length h" and cc: "c \<in> set (obj_children (h ! a))"
    by (auto simp: nth_extended[OF a'] split: if_splits)
  from refs_okD[OF assms(1) al cc] have cl: "c < length h" by simp
  from levels_okD[OF assms(2) al cc] al cl
  show "obj_level ((h @ [ob]) ! a) < obj_level ((h @ [ob]) ! c)"
    by (simp add: nth_append)
qed

lemma levels_ok_linked:
  assumes "refs_ok h" "levels_ok h" "obj_children ob = []" "p < length h"
    and "obj_level (h ! p) < obj_level ob"
  shows "levels_ok ((h @ [ob])[p := push_child (h ! p) (length h)])"
proof (rule levels_okI)
  let ?h' = "(h @ [ob])[p := push_child (h ! p) (length h)]"
  fix a c assume a: "a < length ?h'" and c: "c \<in> set (obj_children (?h' ! a))"
  from a have a': "a < Suc (length h)" by simp
  have lev: "obj_level (?h' ! b) = (if b < length h then obj_level (h ! b) else obj_level ob)"
    if "b < Suc (length h)" for b
    using that assms(4) by (simp add: nth_linked[OF assms(4)])
  from c assms(3,4) have al: "a < length h"
    and cc: "c \<in> set (obj_children (h ! a)) \<or> (a = p \<and> c = length h)"
    by (auto simp: nth_linked[OF assms(4) a'] split: if_splits)
  from cc show "obj_level (?h' ! a) < obj_level (?h' ! c)"
  proof
    assume cc: "c \<in> set (obj_children (h ! a))"
    from refs_okD[OF assms(1) al cc] have cl: "c < length h" by simp
    from levels_okD[OF assms(2) al cc] al cl show ?thesis by (simp add: lev)
  next
    assume "a = p \<and> c = length h"
    with assms(4,5) show ?thesis by (simp add: lev)
  qed
qed

lemma is_spine_extend:
  "is_spine h r as \<Longrightarrow> set as \<subseteq> {..<length h} \<Longrightarrow> is_spine (h @ [ob]) r as"
  by (induction as arbitrary: r) (auto simp: nth_append)

lemma is_spine_linked:
  assumes ok: "refs_ok h"
  shows "is_spine h r as \<Longrightarrow> as \<noteq> [] \<Longrightarrow> set r \<subseteq> {k..<length h} \<Longrightarrow>
     is_spine ((h @ [ob])[last as := push_child (h ! last as) (length h)]) r (as @ [length h])"
proof (induction as arbitrary: r k)
  case Nil
  then show ?case by simp
next
  case (Cons a as)
  define p where "p = last (a # as)"
  define h' where "h' = (h @ [ob])[p := push_child (h ! p) (length h)]"
  from Cons(2) have r: "r \<noteq> []" "last r = a" and sp: "is_spine h (obj_children (h ! a)) as"
    by auto
  from r Cons(4) have a: "a < length h" using last_in_set[of r] by auto
  have ch: "set (obj_children (h ! a)) \<subseteq> {Suc a..<length h}"
    using ok a by (rule refs_ok_children)
  have "is_spine h' (obj_children (h' ! a)) (as @ [length h])"
  proof (cases "as = []")
    case True
    then have "h' ! a = push_child (h ! a) (length h)"
      using a by (simp add: h'_def p_def)
    with True show ?thesis by simp
  next
    case False
    have "last as \<in> set as" using False by simp
    with is_spine_range[OF ok sp ch] have "last as \<in> {Suc a..<length h}" by (rule subsetD)
    then have "p \<noteq> a" using False by (simp add: p_def)
    then have "h' ! a = h ! a" using a by (simp add: h'_def nth_append)
    with Cons(1)[OF sp False ch] False show ?thesis by (simp add: h'_def p_def)
  qed
  with r have "is_spine h' r (a # as @ [length h])" by simp
  then show ?case by (simp add: h'_def p_def)
qed


lemma build_step_root_case:
  assumes "pop_loop (stack s) (level_f item) = []"
  shows "build_step s item =
     \<lparr>heap = heap s @ [new_obj item], root = root s @ [length (heap s)],
      stack = [(length (heap s), level_f item)]\<rparr>"
  using assms by (simp add: build_step_def Let_def)

lemma build_step_child_case:
  assumes "pop_loop (stack s) (level_f item) = st" "st \<noteq> []" "fst (last st) < length (heap s)"
  shows "build_step s item =
     \<lparr>heap = (heap s @ [new_obj item])
               [fst (last st) := push_child (heap s ! fst (last st)) (length (heap s))],
      root = root s, stack = st @ [(length (heap s), level_f item)]\<rparr>"
  using assms by (simp add: build_step_def nth_append Let_def)

lemma stack_ok_prefix: "stack_ok h st \<Longrightarrow> prefix st' st \<Longrightarrow> stack_ok h st'"
  unfolding stack_ok_def by (meson set_mono_prefix subsetD)

lemma build_inv_root_case:
  assumes inv: "build_inv s" and pop: "pop_loop (stack s) (level_f item) = []"
  shows "build_inv (build_step s item)"
proof -
  define h where "h = heap s"
  define ob where "ob = new_obj item"
  have ob: "obj_children ob = []" "obj_level ob = level_f item"
    by (simp_all add: ob_def new_obj_def)
  from inv have ok: "refs_ok h" and lv: "levels_ok h" and rt: "set (root s) \<subseteq> {..<length h}"
    and pre: "concat (map (pre_addrs h) (root s)) = [0..<length h]"
    by (simp_all add: build_inv_def h_def)
  have s': "build_step s item =
      \<lparr>heap = h @ [ob], root = root s @ [length h], stack = [(length h, level_f item)]\<rparr>"
    using pop by (simp add: build_step_root_case h_def ob_def)
  have 1: "refs_ok (h @ [ob])" using ok ob(1) by (rule refs_ok_extend)
  have 2: "levels_ok (h @ [ob])" using ok lv ob(1) by (rule levels_ok_extend)
  have 3: "stack_ok (h @ [ob]) [(length h, level_f item)]"
    by (simp add: stack_ok_def ob(2))
  have 4: "set (root s @ [length h]) \<subseteq> {..<length (h @ [ob])}"
    using rt by (auto simp: less_Suc_eq)
  have "concat (map (pre_addrs (h @ [ob])) (root s)) = concat (map (pre_addrs h) (root s))"
  proof (intro arg_cong[where f = concat] map_cong refl)
    fix a assume "a \<in> set (root s)"
    with rt have "a < length h" by auto
    with ok show "pre_addrs (h @ [ob]) a = pre_addrs h a" by (rule pre_addrs_extend)
  qed
  moreover have "pre_addrs (h @ [ob]) (length h) = [length h]"
    by (rule pre_addrs_leaf) (simp_all add: ob(1))
  ultimately have 5: "concat (map (pre_addrs (h @ [ob])) (root s @ [length h]))
      = [0..<length (h @ [ob])]"
    using pre by simp
  have 6: "is_spine (h @ [ob]) (root s @ [length h]) (map fst [(length h, level_f item)])"
    by simp
  show ?thesis
    unfolding s' build_inv_def using 1 2 3 4 5 6 by simp
qed

lemma build_inv_child_case:
  assumes inv: "build_inv s" and pop: "pop_loop (stack s) (level_f item) \<noteq> []"
  shows "build_inv (build_step s item)"
proof -
  define h where "h = heap s"
  define ob where "ob = new_obj item"
  define st where "st = pop_loop (stack s) (level_f item)"
  define p where "p = fst (last st)"
  define h' where "h' = (h @ [ob])[p := push_child (h ! p) (length h)]"
  have ob: "obj_children ob = []" "obj_level ob = level_f item"
    by (simp_all add: ob_def new_obj_def)
  from inv have ok: "refs_ok h" and lv: "levels_ok h" and sk: "stack_ok h (stack s)"
    and rt: "set (root s) \<subseteq> {..<length h}"
    and pre: "concat (map (pre_addrs h) (root s)) = [0..<length h]"
    and sp: "is_spine h (root s) (map fst (stack s))"
    by (simp_all add: build_inv_def h_def)
  from pop have ne: "st \<noteq> []" by (simp add: st_def)
  have pf: "prefix st (stack s)" unfolding st_def by (rule pop_loop_prefix)
  then have sk': "stack_ok h st" using sk stack_ok_prefix by blast
  from ne have "last st \<in> set st" by simp
  from stack_okD[OF sk' this] have p: "p < length h" and pl: "snd (last st) = obj_level (h ! p)"
    by (simp_all add: p_def)
  from pop_loop_top[OF pop] have "snd (last st) < level_f item" by (simp add: st_def)
  with pl have lt: "obj_level (h ! p) < obj_level ob" by (simp add: ob(2))
  have s': "build_step s item =
      \<lparr>heap = h', root = root s, stack = st @ [(length h, level_f item)]\<rparr>"
    using build_step_child_case[of s item st] ne p
    by (simp add: st_def h_def ob_def p_def h'_def)
  have len: "length h' = Suc (length h)" by (simp add: h'_def)
  have 1: "refs_ok h'" unfolding h'_def using ok ob(1) p by (rule refs_ok_linked)
  have 2: "levels_ok h'" unfolding h'_def using ok lv ob(1) p lt by (rule levels_ok_linked)
  have 3: "stack_ok h' (st @ [(length h, level_f item)])"
    unfolding stack_ok_def
  proof
    fix e assume "e \<in> set (st @ [(length h, level_f item)])"
    then consider "e \<in> set st" | "e = (length h, level_f item)" by auto
    then show "fst e < length h' \<and> snd e = obj_level (h' ! fst e)"
    proof cases
      case 1
      from stack_okD[OF sk' 1] have "fst e < length h" "snd e = obj_level (h ! fst e)"
        by simp_all
      then show ?thesis using p by (simp add: len h'_def nth_linked)
    next
      case 2
      then show ?thesis using p by (simp add: len h'_def nth_linked ob(2))
    qed
  qed
  have 4: "set (root s) \<subseteq> {..<length h'}" using rt by (auto simp: len)
  have sp': "is_spine h (root s) (map fst st)"
    using sp pf by (intro is_spine_prefix[OF sp]) (simp add: map_mono_prefix)
  have ne': "map fst st \<noteq> []" using ne by simp
  have last': "last (map fst st) = p" using ne by (simp add: p_def last_map)
  have d: "distinct (concat (map (pre_addrs h) (root s)))" by (simp add: pre)
  have 5: "concat (map (pre_addrs h') (root s)) = [0..<length h']"
    using pre_addrs_push[OF ok ob(1) sp' ne' rt d] pre by (simp add: last' h'_def)
  have rt0: "set (root s) \<subseteq> {0..<length h}" using rt by auto
  have 6: "is_spine h' (root s) (map fst (st @ [(length h, level_f item)]))"
    using is_spine_linked[OF ok sp' ne' rt0, of ob] by (simp add: last' h'_def)
  show ?thesis
    unfolding s' build_inv_def using 1 2 3 4 5 6 by simp
qed

lemma build_inv_step: "build_inv s \<Longrightarrow> build_inv (build_step s item)"
  using build_inv_root_case build_inv_child_case by blast

lemma build_inv_init: "build_inv \<lparr>heap = [], root = [], stack = []\<rparr>"
  by (simp add: build_inv_def refs_ok_def levels_ok_def stack_ok_def)

lemma build_inv_foldl: "build_inv s \<Longrightarrow> build_inv (foldl build_step s items)"
  by (induction items arbitrary: s) (simp_all add: build_inv_step)

lemma build_inv_loop: "build_inv (build_loop flat)"
  unfolding build_loop_def using build_inv_init by (rule build_inv_foldl)

lemma entry_of_obj_push_child [simp]: "entry_of_obj (push_child x n) = entry_of_obj x"
  by (simp add: entry_of_obj_def push_child_def)

lemma entries_step:
  "map entry_of_obj (heap (build_step s item)) = map entry_of_obj (heap s) @ [item]"
proof -
  have "map entry_of_obj (h[p := push_child (h ! p) n]) = map entry_of_obj h" for h p n
    by (cases "p < length h") (simp_all add: map_update list_update_same_conv list_update_beyond)
  then show ?thesis
    by (simp add: build_step_def Let_def entry_of_obj_def new_obj_def)
qed

lemma entries_foldl:
  "map entry_of_obj (heap (foldl build_step s items)) = map entry_of_obj (heap s) @ items"
  by (induction items arbitrary: s) (simp_all add: entries_step)

lemma entries_loop: "map entry_of_obj (heap (build_loop flat)) = flat"
  by (simp add: build_loop_def entries_foldl)


lemma build_loop_forward_refs:
  assumes "a < length (heap (build_loop flat))"
  shows "forward_refs (heap (build_loop flat)) a = obj_children (heap (build_loop flat) ! a)"
  using build_inv_loop[of flat] assms by (simp add: build_inv_def forward_refs_ok)

lemma build_loop_root_range:
  "set (root (build_loop flat)) \<subseteq> {..<length (heap (build_loop flat))}"
  using build_inv_loop[of flat] by (simp add: build_inv_def)

lemma entry_of_reify: "entry_of (reify h a) = entry_of_obj (h ! a)"
  by (subst reify.simps) (simp add: entry_of_def entry_of_obj_def)

lemma level_reify: "level (reify h a) = obj_level (h ! a)"
  by (subst reify.simps) simp

lemma flatten_buildTree_entries: "map entry_of (flattenTree (buildTree flat)) = flat"
proof -
  define s where "s = build_loop flat"
  have pre: "concat (map (pre_addrs (heap s)) (root s)) = [0..<length (heap s)]"
    using build_inv_loop[of flat] by (simp add: build_inv_def s_def)
  have "map entry_of (flattenTree (buildTree flat))
      = map entry_of (map (reify (heap s)) [0..<length (heap s)])"
    by (simp add: buildTree_def s_def[symmetric] flattenTree_map_reify pre)
  also have "\<dots> = map (\<lambda>a. entry_of_obj (heap s ! a)) [0..<length (heap s)]"
    by (simp add: entry_of_reify)
  also have "\<dots> = map entry_of_obj (map (\<lambda>a. heap s ! a) [0..<length (heap s)])"
    by (simp only: map_map comp_def)
  also have "\<dots> = map entry_of_obj (heap s)"
    by (simp only: map_nth)
  also have "\<dots> = flat" by (simp add: s_def entries_loop)
  finally show ?thesis .
qed

lemma strictly_deeper_reify:
  "refs_ok h \<Longrightarrow> levels_ok h \<Longrightarrow> a < length h \<Longrightarrow> strictly_deeper (reify h a)"
proof (induction h a rule: reify.induct)
  case (1 h a)
  have fr: "forward_refs h a = obj_children (h ! a)"
    using 1(2,4) by (rule forward_refs_ok)
  have "obj_level (h ! a) < level (reify h c) \<and> strictly_deeper (reify h c)"
    if c: "c \<in> set (obj_children (h ! a))" for c
  proof
    from levels_okD[OF 1(3,4) c] show "obj_level (h ! a) < level (reify h c)"
      by (simp add: level_reify)
    from refs_okD[OF 1(2,4) c] have "c < length h" by simp
    with 1(1)[of c] c fr 1(2,3) show "strictly_deeper (reify h c)" by simp
  qed
  then have "list_all (\<lambda>n. obj_level (h ! a) < level n \<and> strictly_deeper n)
      (map (reify h) (forward_refs h a))"
    by (simp add: fr list_all_iff)
  then show ?case by (subst reify.simps) simp
qed

lemma buildTree_strictly_deeper: "list_all strictly_deeper (buildTree flat)"
proof -
  define s where "s = build_loop flat"
  from build_inv_loop[of flat] have ok: "refs_ok (heap s)" and lv: "levels_ok (heap s)"
    and rt: "set (root s) \<subseteq> {..<length (heap s)}"
    by (simp_all add: build_inv_def s_def)
  have "strictly_deeper (reify (heap s) a)" if "a \<in> set (root s)" for a
    using ok lv that rt by (intro strictly_deeper_reify) auto
  then show ?thesis
    by (simp add: buildTree_def s_def[symmetric] list_all_iff)
qed

lemma strictly_deeper_preorder:
  "strictly_deeper n \<Longrightarrow> m \<in> set (preorder n) \<Longrightarrow> c \<in> set (children m) \<Longrightarrow> level m < level c"
proof (induction n rule: preorder.induct)
  case (1 i t l cs)
  from 1(3) consider "m = HeadingNode i t l cs" | k where "k \<in> set cs" "m \<in> set (preorder k)"
    by auto
  then show ?case
  proof cases
    case 1
    with "1.prems"(1,3) show ?thesis by (auto simp: list_all_iff)
  next
    case 2
    with "1.prems"(1) have "strictly_deeper k" by (auto simp: list_all_iff)
    from "1.IH"[OF 2(1) this 2(2) "1.prems"(3)] show ?thesis .
  qed
qed

text \<open>
  Claim C4. For every flat list of headings, flattening the tree that \<open>buildTree\<close> builds
  from it gives back the entries of the list, each with its \<open>id\<close>, \<open>text\<close> and \<open>level\<close>, in
  their original order.
\<close>

theorem flattenTree_buildTree_roundtrip:
  "map entry_of (flattenTree (buildTree flat)) = flat"
  by (rule flatten_buildTree_entries)

text \<open>
  Claim C3. For every flat list of headings, every node of the tree that \<open>buildTree\<close> returns,
  at every depth, has only children of a level strictly greater than its own: the trees of
  the result satisfy \<open>strictly_deeper\<close>, and every node that \<open>flattenTree\<close> finds in the result
  lies strictly above each of its children.
\<close>

theorem buildTree_children_strictly_deeper:
  "list_all strictly_deeper (buildTree flat) \<and>
   (\<forall>n \<in> set (flattenTree (buildTree flat)). \<forall>c \<in> set (children n). level n < level c)"
proof
  show sd: "list_all strictly_deeper (buildTree flat)"
    by (rule buildTree_strictly_deeper)
  show "\<forall>n \<in> set (flattenTree (buildTree flat)). \<forall>c \<in> set (children n). level n < level c"
  proof (intro ballI)
    fix n c assume n: "n \<in> set (flattenTree (buildTree flat))" and c: "c \<in> set (children n)"
    from n obtain k where k: "k \<in> set (buildTree flat)" "n \<in> set (preorder k)"
      by (auto simp: flattenTree_preorder)
    from sd k(1) have "strictly_deeper k" by (simp add: list_all_iff)
    from strictly_deeper_preorder[OF this k(2) c] show "level n < level c" .
  qed
qed

theorem buildTree_children_strictly_deeper_witness:
  "list_all strictly_deeper
     (buildTree [\<lparr>id_f = ''a'', text_f = ''A'', level_f = 2\<rparr>,
                 \<lparr>id_f = ''b'', text_f = ''B'', level_f = 3\<rparr>,
                 \<lparr>id_f = ''c'', text_f = ''C'', level_f = 1\<rparr>,
                 \<lparr>id_f = ''d'', text_f = ''D'', level_f = 3\<rparr>,
                 \<lparr>id_f = ''e'', text_f = ''E'', level_f = 2\<rparr>]) \<and>
   buildTree [\<lparr>id_f = ''a'', text_f = ''A'', level_f = 2\<rparr>,
              \<lparr>id_f = ''b'', text_f = ''B'', level_f = 3\<rparr>,
              \<lparr>id_f = ''c'', text_f = ''C'', level_f = 1\<rparr>,
              \<lparr>id_f = ''d'', text_f = ''D'', level_f = 3\<rparr>,
              \<lparr>id_f = ''e'', text_f = ''E'', level_f = 2\<rparr>]
     = [HeadingNode ''a'' ''A'' 2 [HeadingNode ''b'' ''B'' 3 []],
        HeadingNode ''c'' ''C'' 1 [HeadingNode ''d'' ''D'' 3 [], HeadingNode ''e'' ''E'' 2 []]]"
proof
  show "list_all strictly_deeper
     (buildTree [\<lparr>id_f = ''a'', text_f = ''A'', level_f = 2\<rparr>,
                 \<lparr>id_f = ''b'', text_f = ''B'', level_f = 3\<rparr>,
                 \<lparr>id_f = ''c'', text_f = ''C'', level_f = 1\<rparr>,
                 \<lparr>id_f = ''d'', text_f = ''D'', level_f = 3\<rparr>,
                 \<lparr>id_f = ''e'', text_f = ''E'', level_f = 2\<rparr>])"
    using buildTree_children_strictly_deeper by (rule conjunct1)
  show "buildTree [\<lparr>id_f = ''a'', text_f = ''A'', level_f = 2\<rparr>,
              \<lparr>id_f = ''b'', text_f = ''B'', level_f = 3\<rparr>,
              \<lparr>id_f = ''c'', text_f = ''C'', level_f = 1\<rparr>,
              \<lparr>id_f = ''d'', text_f = ''D'', level_f = 3\<rparr>,
              \<lparr>id_f = ''e'', text_f = ''E'', level_f = 2\<rparr>]
     = [HeadingNode ''a'' ''A'' 2 [HeadingNode ''b'' ''B'' 3 []],
        HeadingNode ''c'' ''C'' 1 [HeadingNode ''d'' ''D'' 3 [], HeadingNode ''e'' ''E'' 2 []]]"
    by code_simp
qed

section \<open>Filtering\<close>

lemma includes_str_sublist: "includes_str s q \<longleftrightarrow> sublist q s"
  by (induction s) (auto simp: sublist_Cons_right)

lemma ci_equal_map: "ci_equal a b \<longleftrightarrow> map lower_char a = map lower_char b"
  unfolding ci_equal_def
proof (induction a arbitrary: b)
  case Nil
  then show ?case by simp
next
  case (Cons x a)
  then show ?case by (cases b) simp_all
qed

lemma includes_ci_contains:
  "includes_str (toLowerCase t) (toLowerCase q) \<longleftrightarrow> ci_contains t q"
proof
  assume "includes_str (toLowerCase t) (toLowerCase q)"
  then obtain ps ss where "map lower_char t = ps @ map lower_char q @ ss"
    by (auto simp: includes_str_sublist sublist_def toLowerCase_def)
  from this[unfolded map_eq_append_conv] obtain pre rest where t: "t = pre @ rest"
    and r: "map lower_char rest = map lower_char q @ ss"
    by metis
  from r[unfolded map_eq_append_conv] obtain mid suf
    where "rest = mid @ suf" "map lower_char mid = map lower_char q"
    by metis
  with t show "ci_contains t q"
    unfolding ci_contains_def ci_equal_map by blast
next
  assume "ci_contains t q"
  then obtain pre mid suf where "t = pre @ mid @ suf" "map lower_char mid = map lower_char q"
    unfolding ci_contains_def ci_equal_map by blast
  then have "map lower_char t = map lower_char pre @ map lower_char q @ map lower_char suf"
    by simp
  then show "includes_str (toLowerCase t) (toLowerCase q)"
    unfolding includes_str_sublist sublist_def toLowerCase_def by blast
qed

lemma matches_subtree_hit: "matches (toLowerCase query) n \<longleftrightarrow> subtree_hit query n"
proof (induction "toLowerCase query" n rule: matches.induct)
  case (1 i t l cs)
  show ?case
  proof (cases "includes_str (toLowerCase t) (toLowerCase query)")
    case True
    then show ?thesis by (simp add: subtree_hit_def includes_ci_contains)
  next
    case False
    with 1 have ih: "matches (toLowerCase query) c \<longleftrightarrow> subtree_hit query c"
      if "c \<in> set cs" for c
      using that by simp
    have "list_ex (matches (toLowerCase query)) cs
        \<longleftrightarrow> (\<exists>c \<in> set cs. subtree_hit query c)"
      using ih by (simp add: list_ex_iff)
    also have "\<dots> \<longleftrightarrow> (\<exists>d \<in> set (descendants (HeadingNode i t l cs)). ci_contains (text_n d) query)"
      by (auto simp: subtree_hit_def)
    finally show ?thesis
      using False by (simp add: subtree_hit_def includes_ci_contains)
  qed
qed

lemma matches_eq_subtree_hit: "matches (toLowerCase query) = subtree_hit query"
  by (rule ext) (rule matches_subtree_hit)

lemma prune_map_filter: "prune q ns = map (pruned q) (filter (matches q) ns)"
  by (induction q ns rule: prune.induct) (auto simp: pruned_def)

lemma pruned_spec_keep: "pruned (toLowerCase query) n = spec_keep query n"
proof (induction query n rule: spec_keep.induct)
  case (1 query i t l cs)
  have f: "filter (matches (toLowerCase query)) cs = filter (subtree_hit query) cs"
    by (simp only: matches_eq_subtree_hit)
  have "map (pruned (toLowerCase query)) (filter (subtree_hit query) cs)
      = map (spec_keep query) (filter (subtree_hit query) cs)"
    using 1 by (intro map_cong refl) simp
  then show ?case
    by (simp add: pruned_def prune_map_filter f)
qed

lemma filterTree_spec: "filterTree nodes query = spec_filterTree nodes query"
proof -
  have "filter (matches (toLowerCase query)) nodes = filter (subtree_hit query) nodes"
    by (simp only: matches_eq_subtree_hit)
  then show ?thesis
    by (simp add: filterTree_def spec_filterTree_def prune_map_filter pruned_spec_keep)
qed

lemma includes_str_Nil: "includes_str s []"
  by (cases s) auto

lemma matches_Nil: "matches [] n"
  by (cases n) (simp add: includes_str_Nil)

lemma prune_Nil_query: "prune [] ns = ns"
  by (induction "[]::string" ns rule: prune.induct) (simp_all add: includes_str_Nil)

lemma matches_pruned: "matches q n \<Longrightarrow> matches q (pruned q n)"
proof (induction q n rule: matches.induct)
  case (1 q i t l cs)
  show ?case
  proof (cases "includes_str (toLowerCase t) q")
    case True
    then show ?thesis by (simp add: pruned_def)
  next
    case False
    with 1(2) obtain c where c: "c \<in> set cs" "matches q c"
      by (auto simp: list_ex_iff)
    with 1(1) False have "matches q (pruned q c)" by simp
    moreover from c have "pruned q c \<in> set (prune q cs)"
      by (auto simp: prune_map_filter)
    ultimately have "list_ex (matches q) (prune q cs)"
      unfolding list_ex_iff by blast
    then show ?thesis
      by (simp add: pruned_def)
  qed
qed

lemma prune_idem: "prune q (prune q ns) = prune q ns"
proof (induction q ns rule: prune.induct)
  case (1 q)
  then show ?case by simp
next
  case (2 q i t l cs list)
  show ?case
  proof (cases "matches q (HeadingNode i t l cs)")
    case True
    from matches_pruned[OF True] have "matches q (HeadingNode i t l (prune q cs))"
      by (simp add: pruned_def)
    with True 2 show ?thesis by simp
  next
    case False
    with 2 show ?thesis by simp
  qed
qed

text \<open>
  Claim C2. For every heading tree and every query, \<open>filterTree\<close> keeps a node exactly when
  the node's text, or the text of one of its descendants, contains the query as a
  case-insensitive substring; the children of a node it keeps are filtered by the same rule;
  and the nodes it keeps stay in their order. Both equations say so: the result is the list
  of the hit nodes, in order, each with its children filtered.
\<close>

theorem filterTree_keeps_hit_subtrees:
  "filterTree nodes query = spec_filterTree nodes query \<and>
   filterTree nodes query =
     map (\<lambda>n. HeadingNode (id_n n) (text_n n) (level n) (filterTree (children n) query))
       (filter (subtree_hit query) nodes)"
proof
  show "filterTree nodes query = spec_filterTree nodes query"
    by (rule filterTree_spec)
  have "pruned (toLowerCase query) =
      (\<lambda>n. HeadingNode (id_n n) (text_n n) (level n) (filterTree (children n) query))"
    by (rule ext) (simp add: pruned_def filterTree_def)
  then show "filterTree nodes query =
     map (\<lambda>n. HeadingNode (id_n n) (text_n n) (level n) (filterTree (children n) query))
       (filter (subtree_hit query) nodes)"
    by (simp add: filterTree_def prune_map_filter matches_eq_subtree_hit)
qed

theorem filterTree_keeps_hit_subtrees_witness:
  "filterTree
     [HeadingNode ''a'' ''Intro'' 1
        [HeadingNode ''b'' ''Setup guide'' 2 [], HeadingNode ''c'' ''Usage'' 2 []],
      HeadingNode ''d'' ''Other'' 1 [],
      HeadingNode ''e'' ''Reset'' 1 []] ''SET''
   = [HeadingNode ''a'' ''Intro'' 1 [HeadingNode ''b'' ''Setup guide'' 2 []],
      HeadingNode ''e'' ''Reset'' 1 []] \<and>
   spec_filterTree
     [HeadingNode ''a'' ''Intro'' 1
        [HeadingNode ''b'' ''Setup guide'' 2 [], HeadingNode ''c'' ''Usage'' 2 []],
      HeadingNode ''d'' ''Other'' 1 [],
      HeadingNode ''e'' ''Reset'' 1 []] ''SET''
   = [HeadingNode ''a'' ''Intro'' 1 [HeadingNode ''b'' ''Setup guide'' 2 []],
      HeadingNode ''e'' ''Reset'' 1 []]"
proof -
  have e: "filterTree
     [HeadingNode ''a'' ''Intro'' 1
        [HeadingNode ''b'' ''Setup guide'' 2 [], HeadingNode ''c'' ''Usage'' 2 []],
      HeadingNode ''d'' ''Other'' 1 [],
      HeadingNode ''e'' ''Reset'' 1 []] ''SET''
   = [HeadingNode ''a'' ''Intro'' 1 [HeadingNode ''b'' ''Setup guide'' 2 []],
      HeadingNode ''e'' ''Reset'' 1 []]"
    by code_simp
  show ?thesis
    using e filterTree_keeps_hit_subtrees[of
      "[HeadingNode ''a'' ''Intro'' 1
        [HeadingNode ''b'' ''Setup guide'' 2 [], HeadingNode ''c'' ''Usage'' 2 []],
      HeadingNode ''d'' ''Other'' 1 [],
      HeadingNode ''e'' ''Reset'' 1 []]" "''SET''"]
    by simp
qed

text \<open>
  Claim C9. For every heading tree, \<open>filterTree\<close> with the empty query returns the tree
  unchanged, and \<open>filterTree\<close> is idempotent: filtering a filtered tree again with the same
  query changes nothing.
\<close>

theorem filterTree_empty_query_and_idempotent:
  "filterTree nodes [] = nodes \<and>
   filterTree (filterTree nodes query) query = filterTree nodes query"
  by (simp add: filterTree_def toLowerCase_def prune_Nil_query prune_idem)

section \<open>Heading extraction\<close>

declare collapse_ws.simps [simp del] string_of_nat.simps [simp del]








subsection \<open>White space\<close>

lemma is_space_space [simp]: "is_space CHR '' ''"
  by (simp add: is_space_def)


lemma collapse_ws_Nil_iff [simp]: "collapse_ws s = [] \<longleftrightarrow> s = []"
  by (cases s) (simp_all add: collapse_ws.simps)













section \<open>The image-proxy route\<close>





lemma GET_run_fetched:
  "map_of (searchParams req) ''url'' = Some u \<Longrightarrow> u \<noteq> [] \<Longrightarrow> new_URL e u = Some p \<Longrightarrow>
   hostname p \<in> ALLOWED_HOSTS \<Longrightarrow> getGitHubToken e = Some t \<Longrightarrow> t \<noteq> [] \<Longrightarrow>
   GET_run e req =
     (case fetch e (upstream_request u t) of
        None \<Rightarrow> (NextResponse_json ''Failed to fetch image'' 502, [upstream_request u t])
      | Some res \<Rightarrow>
          if \<not> ok res
          then (NextResponse_json (''Upstream error ('' @ string_of_nat (up_status res) @ '')'')
                  (up_status res), [upstream_request u t])
          else
            (case up_arrayBuffer res of
               None \<Rightarrow> (NextResponse_json ''Failed to fetch image'' 502, [upstream_request u t])
             | Some b \<Rightarrow>
                 (\<lparr>status = 200, body = Bytes b,
                   headers =
                     [(''Content-Type'',
                       case up_content_type res of
                         None \<Rightarrow> ''application/octet-stream''
                       | Some ct \<Rightarrow> if ct = [] then ''application/octet-stream'' else ct),
                      (''Cache-Control'', ''public, max-age=3600, immutable'')]\<rparr>,
                  [upstream_request u t])))"
  by (simp add: GET_run_def Let_def split: option.splits)

lemma error_response_json [simp]: "error_response (NextResponse_json message st) st' \<longleftrightarrow> st = st'"
  by (simp add: error_response_def NextResponse_json_def)


lemma github_allowed: "''github.com'' \<in> ALLOWED_HOSTS"
  by (simp add: ALLOWED_HOSTS_def)



text \<open>
  Claim C5, as stated, fails: for a valid and allow-listed URL, a token and an upstream
  response with a status in the range 200 to 299, the header \<open>Content-Type\<close> of the response
  is not always the upstream content type. An upstream response without that header is
  answered with \<open>application/octet-stream\<close>.
\<close>

theorem GET_content_type_counterexample:
  "map_of (searchParams github_request) ''url'' = Some ''https://github.com/o/r/raw/a.png'' \<and>
   new_URL (example_env (Some ''t0'') (Some (png_answer None))) ''https://github.com/o/r/raw/a.png''
     = Some \<lparr>hostname = ''github.com''\<rparr> \<and>
   ''github.com'' \<in> ALLOWED_HOSTS \<and>
   getGitHubToken (example_env (Some ''t0'') (Some (png_answer None))) = Some ''t0'' \<and>
   fetch (example_env (Some ''t0'') (Some (png_answer None)))
     (upstream_request ''https://github.com/o/r/raw/a.png'' ''t0'') = Some (png_answer None) \<and>
   ok (png_answer None) \<and>
   up_arrayBuffer (png_answer None) = Some [137, 80, 78, 71] \<and>
   map_of (headers (GET (example_env (Some ''t0'') (Some (png_answer None))) github_request))
     ''Content-Type'' = Some ''application/octet-stream'' \<and>
   map_of (headers (GET (example_env (Some ''t0'') (Some (png_answer None))) github_request))
     ''Content-Type'' \<noteq> up_content_type (png_answer None)"
  by (simp add: GET_def GET_run_def github_request_def example_env_def example_URL_def
      png_answer_def ok_def ALLOWED_HOSTS_def Let_def)

text \<open>
  Claim C5, amended. For every request whose URL is valid and allow-listed, with a token,
  whose upstream fetch returns a status in the range 200 to 299 and whose body can be read:
  the response has that body; its header \<open>Content-Type\<close> is the upstream content type when
  the upstream response has a non-empty one, and \<open>application/octet-stream\<close> otherwise; and
  the one request sent upstream carries the token in its header \<open>Authorization\<close>.
\<close>

theorem GET_streams_upstream:
  assumes "map_of (searchParams req) ''url'' = Some u" "u \<noteq> []"
    and "new_URL e u = Some p" "hostname p \<in> ALLOWED_HOSTS"
    and "getGitHubToken e = Some t" "t \<noteq> []"
    and "fetch e (upstream_request u t) = Some res" "ok res" "up_arrayBuffer res = Some b"
  shows "body (GET e req) = Bytes b \<and>
     map_of (headers (GET e req)) ''Content-Type'' =
       Some (case up_content_type res of
               None \<Rightarrow> ''application/octet-stream''
             | Some ct \<Rightarrow> if ct = [] then ''application/octet-stream'' else ct) \<and>
     GET_upstream e req = [upstream_request u t] \<and>
     fetch_url (upstream_request u t) = u \<and>
     map_of (fetch_headers (upstream_request u t)) ''Authorization'' = Some (''token '' @ t)"
  using assms
  by (simp add: GET_def GET_upstream_def GET_run_fetched[of req u e p t] upstream_request_def)

theorem GET_streams_upstream_witness:
  "body (GET (example_env (Some ''t0'') (Some (png_answer (Some ''image/png'')))) github_request)
     = Bytes [137, 80, 78, 71] \<and>
   map_of (headers (GET (example_env (Some ''t0'') (Some (png_answer (Some ''image/png''))))
     github_request)) ''Content-Type'' = Some ''image/png'' \<and>
   GET_upstream (example_env (Some ''t0'') (Some (png_answer (Some ''image/png'')))) github_request
     = [upstream_request ''https://github.com/o/r/raw/a.png'' ''t0''] \<and>
   map_of (fetch_headers (upstream_request ''https://github.com/o/r/raw/a.png'' ''t0''))
     ''Authorization'' = Some ''token t0''"
  using GET_streams_upstream[of github_request "''https://github.com/o/r/raw/a.png''"
      "example_env (Some ''t0'') (Some (png_answer (Some ''image/png'')))"
      "\<lparr>hostname = ''github.com''\<rparr>" "''t0''" "png_answer (Some ''image/png'')"
      "[137, 80, 78, 71]"] github_allowed
  by (simp add: github_request_def example_env_def example_URL_def png_answer_def ok_def)

section \<open>The outline component\<close>

lemma flatList_focusedIndex [simp]: "flatList (s\<lparr>focusedIndex := i\<rparr>) = flatList s"
  by (simp add: flatList_def displayTree_def)

text \<open>
  The bounds on the prior index are the weakest: ArrowDown stays at or above 0 and ArrowUp
  stays below the length exactly when the prior index lies between -1 and the length.
\<close>

lemma handleKeyDown_bounds_exact:
  assumes "flatList s \<noteq> []"
  shows "(0 \<le> focusedIndex (handleKeyDown doc s ''ArrowDown'') \<and>
          focusedIndex (handleKeyDown doc s ''ArrowUp'') \<le> int (length (flatList s)) - 1)
     \<longleftrightarrow> (- 1 \<le> focusedIndex s \<and> focusedIndex s \<le> int (length (flatList s)))"
proof -
  from assms have "0 < length (flatList s)" by simp
  then show ?thesis by (auto simp: handleKeyDown_def)
qed

text \<open>
  Claim C10, as stated, fails: a focused index can be stale. After the last of three items
  had the focus and the headings were extracted anew with one heading left, the index is 2
  in a list of length 1, and ArrowUp moves it to 1, which is not an index of the list.
\<close>

theorem handleKeyDown_stale_index_counterexample:
  "length (flatList stale_focus_state) = 1 \<and>
   focusedIndex stale_focus_state = 2 \<and>
   focusedIndex (handleKeyDown (\<lambda>ident. True) stale_focus_state ''ArrowUp'') = 1 \<and>
   \<not> focusedIndex (handleKeyDown (\<lambda>ident. True) stale_focus_state ''ArrowUp'')
       \<le> int (length (flatList stale_focus_state)) - 1"
  by (simp add: stale_focus_state_def run_def step_def mount_def initial_state_def
      handleKeyDown_def flatList_def displayTree_def flattenTree_def)

text \<open>
  Claim C10, amended. For each of the keys ArrowDown, ArrowUp, Home and End on a list that
  is not empty, and for every prior focused index from -1, the initial one, up to the
  length of the list, the resulting index lies within 0 and the length minus 1: ArrowDown
  moves one down and stops at the last item, ArrowUp moves one up and stops at the first,
  Home sets 0 and End sets the length minus 1. The list itself stays as it is.
\<close>

theorem handleKeyDown_focus_in_bounds:
  assumes "flatList s \<noteq> []"
    and "key = ''ArrowDown'' \<or> key = ''ArrowUp'' \<or> key = ''Home'' \<or> key = ''End''"
    and "- 1 \<le> focusedIndex s" "focusedIndex s \<le> int (length (flatList s))"
  shows "0 \<le> focusedIndex (handleKeyDown doc s key) \<and>
     focusedIndex (handleKeyDown doc s key) \<le> int (length (flatList s)) - 1 \<and>
     flatList (handleKeyDown doc s key) = flatList s \<and>
     focusedIndex (handleKeyDown doc s key) =
       (if key = ''ArrowDown'' then min (focusedIndex s + 1) (int (length (flatList s)) - 1)
        else if key = ''ArrowUp'' then max (focusedIndex s - 1) 0
        else if key = ''Home'' then 0
        else int (length (flatList s)) - 1)"
proof -
  from assms(1) have len: "0 < length (flatList s)" by simp
  from assms(2) show ?thesis
  proof (elim disjE)
    assume "key = ''ArrowDown''"
    with len assms(3,4) show ?thesis by (simp add: handleKeyDown_def)
  next
    assume "key = ''ArrowUp''"
    with len assms(3,4) show ?thesis by (simp add: handleKeyDown_def)
  next
    assume "key = ''Home''"
    with len show ?thesis by (simp add: handleKeyDown_def)
  next
    assume "key = ''End''"
    with len show ?thesis by (simp add: handleKeyDown_def)
  qed
qed

theorem handleKeyDown_focus_in_bounds_witness:
  "focusedIndex (handleKeyDown (\<lambda>ident. True) (initial_state None\<lparr>headings :=
       [HeadingNode ''a'' ''A'' 1 [HeadingNode ''b'' ''B'' 2 []]]\<rparr>) ''ArrowDown'') = 0 \<and>
   focusedIndex (handleKeyDown (\<lambda>ident. True) (initial_state None\<lparr>headings :=
       [HeadingNode ''a'' ''A'' 1 [HeadingNode ''b'' ''B'' 2 []]]\<rparr>) ''End'') = 1"
proof -
  have fl: "flatList (initial_state None\<lparr>headings :=
       [HeadingNode ''a'' ''A'' 1 [HeadingNode ''b'' ''B'' 2 []]]\<rparr>)
     = [HeadingNode ''a'' ''A'' 1 [HeadingNode ''b'' ''B'' 2 []], HeadingNode ''b'' ''B'' 2 []]"
    by (simp add: flatList_def displayTree_def initial_state_def flattenTree_def)
  have fi: "focusedIndex (initial_state None\<lparr>headings :=
       [HeadingNode ''a'' ''A'' 1 [HeadingNode ''b'' ''B'' 2 []]]\<rparr>) = - 1"
    by (simp add: initial_state_def)
  show ?thesis
    using handleKeyDown_focus_in_bounds[of "initial_state None\<lparr>headings :=
       [HeadingNode ''a'' ''A'' 1 [HeadingNode ''b'' ''B'' 2 []]]\<rparr>" "''ArrowDown''" "\<lambda>ident. True"]
      handleKeyDown_focus_in_bounds[of "initial_state None\<lparr>headings :=
       [HeadingNode ''a'' ''A'' 1 [HeadingNode ''b'' ''B'' 2 []]]\<rparr>" "''End''" "\<lambda>ident. True"]
    by (simp add: fl fi)
qed

text \<open>
  Claim C6, as stated, fails: with the panel collapsed and the drawer closed, a query that
  matches no heading leaves the outline content, and with it the message, out of what is
  rendered; the rail shows the dots of all headings.
\<close>

theorem DocumentOutline_collapsed_counterexample:
  "searchQuery collapsed_no_match_state = ''zzz'' \<and>
   flatList collapsed_no_match_state = [] \<and>
   DocumentOutline True collapsed_no_match_state =
     Some \<lparr>desktop_rail = Some [HeadingNode ''intro'' ''Intro'' 1 []], desktop_content = None,
           mobile_button = True, mobile_drawer = None\<rparr>"
  by (simp add: collapsed_no_match_state_def run_def step_def mount_def initial_state_def
      initial_isExpanded_def flatList_def displayTree_def flattenTree_def DocumentOutline_def
      filterTree_def toLowerCase_def lower_char_def)

text \<open>
  Claim C6, amended. When the outline is visible and there are no headings, the component
  renders nothing. When there are headings and a query that is not empty matches none of
  them, the list of the outline content is the message that nothing matches the query, not
  items, wherever the outline content is rendered: in the desktop pane when the panel is
  expanded, in the drawer when it is open.
\<close>

theorem DocumentOutline_empty_states:
  "(visible \<and> headings s = [] \<longrightarrow> DocumentOutline visible s = None) \<and>
   (visible \<and> headings s \<noteq> [] \<and> searchQuery s \<noteq> [] \<and> flatList s = [] \<longrightarrow>
      (\<exists>r. DocumentOutline visible s = Some r \<and>
         (isExpanded s \<longrightarrow>
            desktop_content r =
              Some \<lparr>search_box = True, list_view = NoMatch (searchQuery s)\<rparr>) \<and>
         (mobileOpen s \<longrightarrow>
            mobile_drawer r =
              Some \<lparr>search_box = isExpanded s, list_view = NoMatch (searchQuery s)\<rparr>) \<and>
         (\<forall>c. desktop_content r = Some c \<or> mobile_drawer r = Some c \<longrightarrow>
            list_view c = NoMatch (searchQuery s))))"
  by (auto simp: DocumentOutline_def outlineContent_def)

theorem DocumentOutline_empty_states_witness:
  "DocumentOutline True (initial_state None) = None \<and>
   DocumentOutline True expanded_no_match_state =
     Some \<lparr>desktop_rail = None,
           desktop_content = Some \<lparr>search_box = True, list_view = NoMatch ''zzz''\<rparr>,
           mobile_button = False,
           mobile_drawer = Some \<lparr>search_box = True, list_view = NoMatch ''zzz''\<rparr>\<rparr>"
proof -
  have s: "headings expanded_no_match_state = [HeadingNode ''intro'' ''Intro'' 1 []]"
    "searchQuery expanded_no_match_state = ''zzz''" "flatList expanded_no_match_state = []"
    "isExpanded expanded_no_match_state" "mobileOpen expanded_no_match_state"
    by (simp_all add: expanded_no_match_state_def run_def step_def mount_def initial_state_def
      initial_isExpanded_def flatList_def displayTree_def flattenTree_def
      filterTree_def toLowerCase_def lower_char_def)
  have "DocumentOutline True (initial_state None) = None"
    using DocumentOutline_empty_states[of True "initial_state None"]
    by (simp add: initial_state_def)
  moreover have "DocumentOutline True expanded_no_match_state =
     Some \<lparr>desktop_rail = None,
           desktop_content = Some \<lparr>search_box = True, list_view = NoMatch ''zzz''\<rparr>,
           mobile_button = False,
           mobile_drawer = Some \<lparr>search_box = True, list_view = NoMatch ''zzz''\<rparr>\<rparr>"
    using DocumentOutline_empty_states[of True expanded_no_match_state] s
    by (auto simp: DocumentOutline_def)
  ultimately show ?thesis by simp
qed

lemma persist_invariant_step:
  assumes "snd c = Some (st0(SESSION_KEY \<mapsto> String_bool (isExpanded (fst c))))"
  shows "snd (step doc c ev) =
     Some (st0(SESSION_KEY \<mapsto> String_bool (isExpanded (fst (step doc c ev)))))"
  using assms by (simp add: step_def Let_def persist_effect_def)

lemma persist_invariant_foldl:
  "snd c = Some (st0(SESSION_KEY \<mapsto> String_bool (isExpanded (fst c)))) \<Longrightarrow>
   snd (foldl (step doc) c evs) =
     Some (st0(SESSION_KEY \<mapsto> String_bool (isExpanded (fst (foldl (step doc) c evs)))))"
proof (induction evs arbitrary: c)
  case Nil
  then show ?case by simp
next
  case (Cons ev evs)
  from Cons.prems have "snd (step doc c ev) =
     Some (st0(SESSION_KEY \<mapsto> String_bool (isExpanded (fst (step doc c ev)))))"
    by (rule persist_invariant_step)
  from Cons.IH[OF this] show ?case by simp
qed

lemma persist_invariant_run:
  "snd (run doc (Some st0) evs) =
     Some (st0(SESSION_KEY \<mapsto> String_bool (isExpanded (fst (run doc (Some st0) evs)))))"
  unfolding run_def
  by (rule persist_invariant_foldl) (simp add: mount_def persist_effect_def)

lemma initial_isExpanded_stored:
  "initial_isExpanded (Some (st(SESSION_KEY \<mapsto> String_bool b))) = b"
  by (simp add: initial_isExpanded_def String_bool_def)

text \<open>
  Claim C7. The session storage is the part of the window that the model holds. After the
  component is mounted and after every sequence of events, the storage is the storage from
  before with \<open>'true'\<close> or \<open>'false'\<close>, the current value of the flag, under the key
  \<open>doc-outline-expanded\<close>, and nothing else of the state in it; a component that is mounted
  reads its flag from that key and starts expanded when nothing is stored; so a component
  mounted on the storage that a run has left starts with the flag of that run.
\<close>

theorem expanded_flag_persisted:
  "snd (run doc (Some st0) evs) =
     Some (st0(SESSION_KEY \<mapsto> (if isExpanded (fst (run doc (Some st0) evs))
                                  then ''true'' else ''false''))) \<and>
   SESSION_KEY = ''doc-outline-expanded'' \<and>
   isExpanded (fst (mount (Some st))) =
     (case st SESSION_KEY of None \<Rightarrow> True | Some stored \<Rightarrow> stored = ''true'') \<and>
   isExpanded (fst (mount (snd (run doc (Some st0) evs)))) =
     isExpanded (fst (run doc (Some st0) evs))"
proof (intro conjI)
  show "snd (run doc (Some st0) evs) =
     Some (st0(SESSION_KEY \<mapsto> (if isExpanded (fst (run doc (Some st0) evs))
                                  then ''true'' else ''false'')))"
    using persist_invariant_run[of doc st0 evs] by (simp add: String_bool_def)
  show "SESSION_KEY = ''doc-outline-expanded''" by (simp add: SESSION_KEY_def)
  show "isExpanded (fst (mount (Some st))) =
     (case st SESSION_KEY of None \<Rightarrow> True | Some stored \<Rightarrow> stored = ''true'')"
    by (simp add: mount_def initial_state_def initial_isExpanded_def)
  show "isExpanded (fst (mount (snd (run doc (Some st0) evs)))) =
     isExpanded (fst (run doc (Some st0) evs))"
    by (simp add: persist_invariant_run mount_def initial_state_def initial_isExpanded_stored)
qed

theorem expanded_flag_persisted_witness:
  "snd (run (\<lambda>ident. True) (Some Map.empty) [ToggleExpanded, SearchChange ''a'', OpenMobile]) =
     Some [SESSION_KEY \<mapsto> ''false''] \<and>
   isExpanded (fst (mount (Some [SESSION_KEY \<mapsto> ''false'']))) = False"
proof -
  have "isExpanded (fst (run (\<lambda>ident. True) (Some Map.empty)
      [ToggleExpanded, SearchChange ''a'', OpenMobile])) = False"
    by (simp add: run_def step_def mount_def initial_state_def initial_isExpanded_def)
  then show ?thesis
    using expanded_flag_persisted[of "\<lambda>ident. True" Map.empty
        "[ToggleExpanded, SearchChange ''a'', OpenMobile]" "[SESSION_KEY \<mapsto> ''false'']"]
    by simp
qed

end
